theory Spec2Isabelle
  imports Complex_Main
begin

section \<open>Station orientation analysis (seismic/analyze\_station\_orientations.py)\<close>

subsection \<open>Back-azimuth wrap-around\<close>

text \<open>
  In \<open>_run_single_station\<close> the back-azimuth of every trace of the copied stream is
  corrected and then brought back into range by two loops:
  \<^verbatim>\<open>
  tr.stats.back_azimuth += correction
  while tr.stats.back_azimuth < 0:
      tr.stats.back_azimuth += 360
  while tr.stats.back_azimuth >= 360:
      tr.stats.back_azimuth -= 360
  \<close>
  The loops are modelled twice. First over exact reals (degrees), as total functions
  with a termination measure: this is the arithmetic the per-station job below carries
  the back-azimuth with. Then, further down, in the double precision arithmetic of the
  source, where an addition or subtraction rounds and the loops are partial.
\<close>

function wrap_neg :: "real \<Rightarrow> real" where
  "wrap_neg b = (if b < 0 then wrap_neg (b + 360) else b)"
  by pat_completeness auto
termination
proof (relation "measure (\<lambda>b. nat \<lceil>- b / 360\<rceil>)")
  show "wf (measure (\<lambda>b::real. nat \<lceil>- b / 360\<rceil>))" by simp
next
  fix b :: real
  assume neg: "b < 0"
  have step: "\<lceil>- (b + 360) / 360\<rceil> = \<lceil>- b / 360\<rceil> - 1"
  proof -
    have "- (b + 360) / 360 = - b / 360 - 1" by (simp add: field_simps)
    then have "\<lceil>- (b + 360) / 360\<rceil> = \<lceil>- b / 360 - 1\<rceil>" by (simp only:)
    also have "\<dots> = \<lceil>- b / 360\<rceil> - 1" by (rule ceiling_diff_one)
    finally show ?thesis .
  qed
  from neg have "0 < - b / 360" by simp
  then have "0 < \<lceil>- b / 360\<rceil>" by (simp only: zero_less_ceiling)
  with step have "nat \<lceil>- (b + 360) / 360\<rceil> < nat \<lceil>- b / 360\<rceil>" by linarith
  then show "(b + 360, b) \<in> measure (\<lambda>b. nat \<lceil>- b / 360\<rceil>)" by (simp only: in_measure)
qed

function wrap_over :: "real \<Rightarrow> real" where
  "wrap_over b = (if b \<ge> 360 then wrap_over (b - 360) else b)"
  by pat_completeness auto
termination
proof (relation "measure (\<lambda>b. nat \<lfloor>b / 360\<rfloor>)")
  show "wf (measure (\<lambda>b::real. nat \<lfloor>b / 360\<rfloor>))" by simp
next
  fix b :: real
  assume big: "360 \<le> b"
  have step: "\<lfloor>(b - 360) / 360\<rfloor> = \<lfloor>b / 360\<rfloor> - 1"
  proof -
    have "(b - 360) / 360 = b / 360 - 1" by (simp add: field_simps)
    then have "\<lfloor>(b - 360) / 360\<rfloor> = \<lfloor>b / 360 - 1\<rfloor>" by (simp only:)
    also have "\<dots> = \<lfloor>b / 360\<rfloor> - 1" by (rule floor_diff_one)
    finally show ?thesis .
  qed
  from big have "1 \<le> b / 360" by simp
  then have "1 \<le> \<lfloor>b / 360\<rfloor>" by (simp only: one_le_floor)
  with step have "nat \<lfloor>(b - 360) / 360\<rfloor> < nat \<lfloor>b / 360\<rfloor>" by linarith
  then show "(b - 360, b) \<in> measure (\<lambda>b. nat \<lfloor>b / 360\<rfloor>)" by (simp only: in_measure)
qed

declare wrap_neg.simps [simp del] wrap_over.simps [simp del]

definition wrap_back_azimuth :: "real \<Rightarrow> real" where
  "wrap_back_azimuth b = wrap_over (wrap_neg b)"

text \<open>
  Double precision. A finite double is an integer of at most 53 bits times a power of
  two, the exponent of the last place no smaller than -1074. \<open>fl\<close> rounds a real to
  the nearest double, ties to the even mantissa: the result of one \<open>+=\<close> or \<open>-=\<close> of
  the source is \<open>fl\<close> of the exact result. Overflow is not modelled: it does not arise
  here, since a correction is below 180 degrees in magnitude and a step of a loop moves
  the value towards the range.
\<close>

definition round_half_even :: "real \<Rightarrow> int" where
  "round_half_even z =
     (let f = \<lfloor>z\<rfloor>; d = z - of_int f
      in if d < 1 / 2 then f else if 1 / 2 < d then f + 1 else if even f then f else f + 1)"

definition ulp_exponent :: "real \<Rightarrow> int" where
  "ulp_exponent x = max (\<lfloor>log 2 \<bar>x\<bar>\<rfloor> - 52) (- 1074)"

definition fl :: "real \<Rightarrow> real" where
  "fl x =
     (if x = 0 then 0
      else of_int (round_half_even (x / 2 powr of_int (ulp_exponent x)))
             * 2 powr of_int (ulp_exponent x))"

text \<open>
  The two loops in doubles. A loop that does not end has no result: \<open>None\<close>.
\<close>

partial_function (option) wrap_neg_d :: "real \<Rightarrow> real option" where
  "wrap_neg_d b = (if b < 0 then wrap_neg_d (fl (b + 360)) else Some b)"

partial_function (option) wrap_over_d :: "real \<Rightarrow> real option" where
  "wrap_over_d b = (if b \<ge> 360 then wrap_over_d (fl (b - 360)) else Some b)"

definition wrap_back_azimuth_d :: "real \<Rightarrow> real \<Rightarrow> real option" where
  "wrap_back_azimuth_d b correction =
     (case wrap_neg_d (fl (b + correction)) of
        None \<Rightarrow> None
      | Some b1 \<Rightarrow> wrap_over_d b1)"

subsection \<open>Data model\<close>

text \<open>
  Exceptions are values. \<open>IndexError\<close> is raised by \<open>stream[0]\<close> on an empty stream,
  by \<open>ampls[0]\<close> on an empty list and by a boolean mask of the wrong length;
  \<open>ValueError\<close> by \<open>np.argmax\<close> of an empty array; \<open>RuntimeError\<close> is what
  \<open>scipy.optimize.curve_fit\<close> raises when the fit does not converge. Any other
  exception of an external collaborator is an \<open>ExternalError\<close>.
\<close>

datatype error = IndexError | ValueError | RuntimeError | ExternalError

text \<open>
  An amplitude is a numpy float: a finite number, an infinity or the not-a-number
  sentinel \<open>np.nan\<close>. \<open>np.isfinite\<close> holds of the finite numbers only.
\<close>

datatype npfloat = Finite real | PosInf | NegInf | NaN

fun isfinite :: "npfloat \<Rightarrow> bool" where
  "isfinite (Finite v) = True"
| "isfinite PosInf = False"
| "isfinite NegInf = False"
| "isfinite NaN = False"

fun np_sqrt :: "npfloat \<Rightarrow> npfloat" where
  "np_sqrt (Finite v) = (if v < 0 then NaN else Finite (sqrt v))"
| "np_sqrt PosInf = PosInf"
| "np_sqrt NegInf = NaN"
| "np_sqrt NaN = NaN"

text \<open>
  A trace carries the \<open>stats\<close> attributes the analysis reads (times are
  \<open>UTCDateTime\<close> values, integer nanoseconds) and its samples \<open>tdata\<close>. A stream
  (one Event Waveform Record) owns its traces. Streams are objects: the station
  dictionaries hold references into a store of streams, so that the difference between
  a stream and its \<open>copy.deepcopy\<close> is visible. A new object gets the next free
  reference, the length of the store.
\<close>

type_synonym utc = int

record 'd trace =
  back_azimuth :: real
  starttime :: utc
  endtime :: utc
  onset :: utc
  tdata :: 'd

type_synonym 'd stream = "'d trace list"
type_synonym ref = nat
type_synonym 'd store = "'d stream list"
type_synonym evid = nat
type_synonym db_evid = "(evid \<times> ref) list"

text \<open>
  \<open>NetworkEventDataset\<close>: the network code and, per station code, the dictionary of
  event streams keyed by event id, in iteration order.
\<close>

record network_event_dataset =
  network :: string
  db_sta :: "(string \<times> db_evid) list"

definition by_station :: "network_event_dataset \<Rightarrow> (string \<times> db_evid) list" where
  "by_station ned = db_sta ned"

text \<open>
  Modelled from the spec: \<open>NetworkEventDataset.__len__\<close> and iteration over the
  dataset are not among the sources. The spec calls a dataset of length zero one with
  "zero events": the length is the number of (station, event) streams, and iterating
  yields one (station, event id, stream) triple per stream.
\<close>

definition ned_iter :: "network_event_dataset \<Rightarrow> (string \<times> evid \<times> ref) list" where
  "ned_iter ned = concat (map (\<lambda>(sta, db). map (\<lambda>(ev, stream). (sta, ev, stream)) db) (db_sta ned))"

definition ned_len :: "network_event_dataset \<Rightarrow> nat" where
  "ned_len ned = length (ned_iter ned)"

text \<open>
  The external collaborators, as parameters. The configuration dictionaries are passed
  to them unchanged and are part of the parameter.
  \<^item> \<open>transform_stream_to_rf\<close>: the receiver-function transform of one event's stream;
    \<open>None\<close> when it yields no result, otherwise the receiver-function traces.
  \<^item> \<open>rf_select\<close>, \<open>rf_trim2\<close>, \<open>rf_detrend\<close>, \<open>rf_taper\<close>, \<open>rf_stack\<close>: the methods
    \<open>select(component=...)\<close>, \<open>trim2(t1, t2, reftime=...)\<close>, \<open>detrend(type)\<close>,
    \<open>taper(max_percentage)\<close> and \<open>stack()\<close> of the \<open>rf\<close> library's stream of
    receiver-function traces; \<open>rf_data\<close> is the sample array of a trace and \<open>np_mean\<close>
    is \<open>np.mean\<close>.
  \<^item> \<open>stream_trim\<close>, \<open>stream_lowpass\<close>, \<open>stream_interpolate\<close>: the obspy stream methods.
  \<^item> \<open>curate_seismograms\<close>: seismogram curation, which may drop events and stations.
  \<^item> \<open>cubic_spline\<close>: \<open>CubicSpline(x_valid, y_valid, bc_type)\<close> evaluated on the fine grid.
  \<^item> \<open>curve_fit\<close>: the bounded two-parameter cosine fit from \<open>p0 = [0.2, 0.0]\<close>; it
    returns \<open>A_fit\<close>, \<open>ph_fit\<close> and the entry \<open>cov[1, 1]\<close>.
  \<^item> \<open>save_plot\<close>: the matplotlib calls of lines 222 to 236.
\<close>

datatype bc_type = Periodic | NotAKnot

record ('d, 'r) externals =
  transform_stream_to_rf :: "evid \<Rightarrow> 'd stream \<Rightarrow> error + 'r list option"
  rf_select :: "'r list \<Rightarrow> string \<Rightarrow> error + 'r list"
  rf_trim2 :: "'r list \<Rightarrow> real \<Rightarrow> real \<Rightarrow> string \<Rightarrow> error + 'r list"
  rf_detrend :: "'r list \<Rightarrow> string \<Rightarrow> error + 'r list"
  rf_taper :: "'r list \<Rightarrow> real \<Rightarrow> error + 'r list"
  rf_stack :: "'r list \<Rightarrow> error + 'r list"
  rf_data :: "'r \<Rightarrow> npfloat list"
  np_mean :: "npfloat list \<Rightarrow> npfloat"
  stream_trim :: "'d stream \<Rightarrow> utc \<Rightarrow> utc \<Rightarrow> error + 'd stream"
  stream_lowpass :: "'d stream \<Rightarrow> real \<Rightarrow> error + 'd stream"
  stream_interpolate :: "'d stream \<Rightarrow> real \<Rightarrow> error + 'd stream"
  curate_seismograms :: "network_event_dataset \<Rightarrow> 'd store \<Rightarrow> error + network_event_dataset \<times> 'd store"
  cubic_spline :: "(real \<times> real) list \<Rightarrow> bc_type \<Rightarrow> real list \<Rightarrow> error + real list"
  curve_fit :: "(real \<times> real) list \<Rightarrow> error + real \<times> real \<times> npfloat"
  save_plot :: "string \<Rightarrow> string \<Rightarrow> (real \<times> real) list \<Rightarrow> real list \<Rightarrow> real list \<Rightarrow> nat \<Rightarrow> error + unit"

subsection \<open>The per-station job: \<open>_run_single_station\<close>\<close>

text \<open>
  The job carries the corrected back-azimuth as the exact real
  \<open>wrap_back_azimuth (b + correction)\<close>. What the job does with the store, which events
  it gathers and in which order it returns the metrics does not depend on that value.
\<close>

definition deepcopy :: "ref \<Rightarrow> 'd store \<Rightarrow> ref \<times> 'd store" where
  "deepcopy stream h = (length h, h @ [h ! stream])"

definition rotate_trace :: "real \<Rightarrow> 'd trace \<Rightarrow> 'd trace" where
  "rotate_trace correction tr =
     tr\<lparr>back_azimuth := wrap_back_azimuth (back_azimuth tr + correction)\<rparr>"

definition rotate_stream :: "real \<Rightarrow> ref \<Rightarrow> 'd store \<Rightarrow> 'd store" where
  "rotate_stream correction stream_rot h =
     h[stream_rot := map (rotate_trace correction) (h ! stream_rot)]"

text \<open>
  The inner loop over \<open>db_evid.items()\<close> (lines 76 to 92), with \<open>rf_stream_all\<close> as
  accumulator. The transform is given \<open>RFStream(stream_rot)\<close>, which reaches the copy
  only.
\<close>

fun events_loop ::
  "('d, 'r) externals \<Rightarrow> real \<Rightarrow> db_evid \<Rightarrow> 'r list \<Rightarrow> 'd store \<Rightarrow> (error + 'r list) \<times> 'd store"
where
  "events_loop X correction [] rf_stream_all h = (Inr rf_stream_all, h)"
| "events_loop X correction ((ev, stream) # rest) rf_stream_all h =
     (let stream_rot = fst (deepcopy stream h);
          h1 = snd (deepcopy stream h);
          h2 = rotate_stream correction stream_rot h1
      in case transform_stream_to_rf X ev (h2 ! stream_rot) of
           Inl e \<Rightarrow> (Inl e, h2)
         | Inr None \<Rightarrow> events_loop X correction rest rf_stream_all h2
         | Inr (Some rf_3ch) \<Rightarrow> events_loop X correction rest (rf_stream_all @ rf_3ch) h2)"

text \<open>
  Lines 94 to 99, for a non-empty aggregate:
  \<^verbatim>\<open>
  rf_stream_R = rf_stream_all.select(component='R')
  rf_stream_R.trim2(-5, 5, reftime='onset')
  rf_stream_R.detrend('linear')
  rf_stream_R.taper(0.1)
  R_stack = rf_stream_R.stack().trim2(-1, 1, reftime='onset')[0].data
  ampl_mean = np.mean(R_stack)
  \<close>
  The methods \<open>trim2\<close>, \<open>detrend\<close> and \<open>taper\<close> change the stream in place; the model
  hands the changed stream on. \<open>[0]\<close> raises \<open>IndexError\<close> on an empty stack.
\<close>

definition stack_mean :: "('d, 'r) externals \<Rightarrow> 'r list \<Rightarrow> error + npfloat" where
  "stack_mean X rf_stream_all =
     (case rf_select X rf_stream_all ''R'' of
        Inl e \<Rightarrow> Inl e
      | Inr rf_stream_R \<Rightarrow>
     (case rf_trim2 X rf_stream_R (- 5) 5 ''onset'' of
        Inl e \<Rightarrow> Inl e
      | Inr trimmed \<Rightarrow>
     (case rf_detrend X trimmed ''linear'' of
        Inl e \<Rightarrow> Inl e
      | Inr detrended \<Rightarrow>
     (case rf_taper X detrended (1 / 10) of
        Inl e \<Rightarrow> Inl e
      | Inr tapered \<Rightarrow>
     (case rf_stack X tapered of
        Inl e \<Rightarrow> Inl e
      | Inr stacked \<Rightarrow>
     (case rf_trim2 X stacked (- 1) 1 ''onset'' of
        Inl e \<Rightarrow> Inl e
      | Inr [] \<Rightarrow> Inl IndexError
      | Inr (tr # _) \<Rightarrow> Inr (np_mean X (rf_data X tr))))))))"

text \<open>
  The body of the loop over the candidate angles (lines 75 to 103): the Angle Sweep
  Evaluator of the spec, for one candidate correction.
\<close>

definition angle_sweep ::
  "('d, 'r) externals \<Rightarrow> db_evid \<Rightarrow> real \<Rightarrow> 'd store \<Rightarrow> (error + npfloat) \<times> 'd store"
where
  "angle_sweep X db correction h =
     (case events_loop X correction db [] h of
        (Inl e, h1) \<Rightarrow> (Inl e, h1)
      | (Inr rf_stream_all, h1) \<Rightarrow>
          (if length rf_stream_all > 0 then stack_mean X rf_stream_all else Inr NaN, h1))"

fun angles_loop ::
  "('d, 'r) externals \<Rightarrow> db_evid \<Rightarrow> real list \<Rightarrow> npfloat list \<Rightarrow> 'd store
     \<Rightarrow> (error + npfloat list) \<times> 'd store"
where
  "angles_loop X db [] ampls h = (Inr ampls, h)"
| "angles_loop X db (correction # rest) ampls h =
     (case angle_sweep X db correction h of
        (Inl e, h1) \<Rightarrow> (Inl e, h1)
      | (Inr ampl_mean, h1) \<Rightarrow> angles_loop X db rest (ampls @ [ampl_mean]) h1)"

definition run_single_station ::
  "('d, 'r) externals \<Rightarrow> db_evid \<Rightarrow> real list \<Rightarrow> 'd store \<Rightarrow> (error + npfloat list) \<times> 'd store"
where
  "run_single_station X db angles h = angles_loop X db angles [] h"

text \<open>
  The words of the spec for one candidate angle (component 4.1, steps 3 to 6), to compare
  with the loops: the per-event results are gathered in event order, an event without a
  result contributes nothing, and an empty aggregate gives the not-a-number sentinel.
\<close>

fun gather_rf :: "(error + 'r list option) list \<Rightarrow> error + 'r list" where
  "gather_rf [] = Inr []"
| "gather_rf (Inl e # rs) = Inl e"
| "gather_rf (Inr None # rs) = gather_rf rs"
| "gather_rf (Inr (Some rf_3ch) # rs) =
     (case gather_rf rs of Inl e \<Rightarrow> Inl e | Inr acc \<Rightarrow> Inr (rf_3ch @ acc))"

definition event_rf :: "('d, 'r) externals \<Rightarrow> real \<Rightarrow> 'd store \<Rightarrow> evid \<times> ref \<Rightarrow> error + 'r list option" where
  "event_rf X correction h = (\<lambda>(ev, stream).
     transform_stream_to_rf X ev (map (rotate_trace correction) (h ! stream)))"

definition sweep_metric :: "('d, 'r) externals \<Rightarrow> db_evid \<Rightarrow> real \<Rightarrow> 'd store \<Rightarrow> error + npfloat" where
  "sweep_metric X db correction h =
     (case gather_rf (map (event_rf X correction h) db) of
        Inl e \<Rightarrow> Inl e
      | Inr aggregate \<Rightarrow> if aggregate = [] then Inr NaN else stack_mean X aggregate)"

text \<open>Results of a sequence of computations, in order; the first exception ends it.\<close>

fun collect :: "(error + 'a) list \<Rightarrow> error + 'a list" where
  "collect [] = Inr []"
| "collect (Inl e # rs) = Inl e"
| "collect (Inr v # rs) = (case collect rs of Inl e \<Rightarrow> Inl e | Inr vs \<Rightarrow> Inr (v # vs))"

subsection \<open>The orchestrator: \<open>analyze_station_orientations\<close>\<close>

text \<open>
  The returned mapping: a dictionary from "network.station" to a dictionary with the
  optional keys \<open>date_range\<close> and \<open>azimuth_correction\<close>. \<open>results\<close> is a
  \<open>defaultdict(dict)\<close>: reading a missing key gives the empty dictionary. The date
  range is kept as the two times (\<open>None\<close> when the station has no event); their
  rendering by \<open>str\<close> is not modelled.
\<close>

record entry =
  date_range :: "(utc option \<times> utc option) option"
  azimuth_correction :: "real option"

type_synonym results = "string \<rightharpoonup> entry"

definition empty_entry :: entry where
  "empty_entry = \<lparr>date_range = None, azimuth_correction = None\<rparr>"

definition get_entry :: "results \<Rightarrow> string \<Rightarrow> entry" where
  "get_entry res code = (case res code of None \<Rightarrow> empty_entry | Some e \<Rightarrow> e)"

definition full_code :: "string \<Rightarrow> string \<Rightarrow> string" where
  "full_code net sta = net @ ''.'' @ sta"

text \<open>What \<open>logger.info\<close> is called with, in order.\<close>

datatype log_event =
    Trimming
  | Downsampling
  | Curating
  | Discarded nat nat
  | Analysing
  | InsufficientData string nat
  | Estimate string real npfloat nat

text \<open>Lines 139 to 156: the limiting date range per station.\<close>

definition first_time :: "utc option \<Rightarrow> ('d trace \<Rightarrow> utc) \<Rightarrow> 'd stream \<Rightarrow> error + utc" where
  "first_time t field stream =
     (case t of
        Some v \<Rightarrow> Inr v
      | None \<Rightarrow> (case stream of [] \<Rightarrow> Inl IndexError | tr # _ \<Rightarrow> Inr (field tr)))"

definition trace_span :: "utc \<times> utc \<Rightarrow> 'd stream \<Rightarrow> utc \<times> utc" where
  "trace_span se stream =
     foldl (\<lambda>(start_time, end_time) tr.
              (min start_time (starttime tr), max end_time (endtime tr))) se stream"

fun station_span ::
  "'d store \<Rightarrow> db_evid \<Rightarrow> utc option \<times> utc option \<Rightarrow> error + utc option \<times> utc option"
where
  "station_span h [] se = Inr se"
| "station_span h ((ev, stream) # rest) (start_time, end_time) =
     (case first_time start_time starttime (h ! stream) of
        Inl e \<Rightarrow> Inl e
      | Inr s0 \<Rightarrow>
          (case first_time end_time endtime (h ! stream) of
             Inl e \<Rightarrow> Inl e
           | Inr e0 \<Rightarrow>
               station_span h rest
                 (Some (fst (trace_span (s0, e0) (h ! stream))),
                  Some (snd (trace_span (s0, e0) (h ! stream))))))"

fun date_ranges ::
  "string \<Rightarrow> 'd store \<Rightarrow> (string \<times> db_evid) list \<Rightarrow> results \<Rightarrow> error + results"
where
  "date_ranges net h [] res = Inr res"
| "date_ranges net h ((sta, db) # rest) res =
     (case station_span h db (None, None) of
        Inl e \<Rightarrow> Inl e
      | Inr se \<Rightarrow>
          date_ranges net h rest
            (res(full_code net sta \<mapsto> (get_entry res (full_code net sta))\<lparr>date_range := Some se\<rparr>)))"

text \<open>
  The words of the claims for the date range of a station, to compare with the loops:
  the earliest start time and the latest end time over all traces of all events of the
  station; no times for a station without traces.
\<close>

definition station_traces :: "'d store \<Rightarrow> db_evid \<Rightarrow> 'd trace list" where
  "station_traces h db = concat (map (\<lambda>(ev, stream). h ! stream) db)"

definition observed_span :: "'d store \<Rightarrow> db_evid \<Rightarrow> utc option \<times> utc option" where
  "observed_span h db =
     (if station_traces h db = [] then (None, None)
      else (Some (Min (set (map starttime (station_traces h db)))),
            Some (Max (set (map endtime (station_traces h db))))))"

text \<open>
  Lines 158 to 174: trimming, downsampling and curation, all in place.
  Modelled from the spec: \<open>NetworkEventDataset.apply\<close> is not among the sources; it
  calls the given function on every stream of the dataset, which the function changes
  in place.
\<close>

fun ned_apply ::
  "('d stream \<Rightarrow> error + 'd stream) \<Rightarrow> ref list \<Rightarrow> 'd store \<Rightarrow> (error + unit) \<times> 'd store"
where
  "ned_apply f [] h = (Inr (), h)"
| "ned_apply f (stream # rest) h =
     (case f (h ! stream) of
        Inl e \<Rightarrow> (Inl e, h)
      | Inr s \<Rightarrow> ned_apply f rest (h[stream := s]))"

definition seconds :: "int \<Rightarrow> utc" where
  "seconds n = n * 1000000000"

definition trim_window :: "('d, 'r) externals \<Rightarrow> 'd stream \<Rightarrow> error + 'd stream" where
  "trim_window X stream =
     (case stream of
        [] \<Rightarrow> Inl IndexError
      | tr # _ \<Rightarrow> stream_trim X stream (onset tr - seconds 10) (onset tr + seconds 30))"

definition downsample :: "('d, 'r) externals \<Rightarrow> 'd stream \<Rightarrow> error + 'd stream" where
  "downsample X stream =
     (let fs = 20 in
      case stream_lowpass X stream (fs / 2) of
        Inl e \<Rightarrow> Inl e
      | Inr s \<Rightarrow> stream_interpolate X s fs)"

definition evid_set :: "network_event_dataset \<Rightarrow> evid list" where
  "evid_set ned = remdups (map (\<lambda>(sta, ev, stream). ev) (ned_iter ned))"

definition prepare ::
  "('d, 'r) externals \<Rightarrow> network_event_dataset \<Rightarrow> 'd store
     \<Rightarrow> (error + unit) \<times> network_event_dataset \<times> 'd store \<times> log_event list"
where
  "prepare X ned h =
     (let evids_orig = evid_set ned;
          streams = map (\<lambda>(sta, ev, stream). stream) (ned_iter ned)
      in case ned_apply (trim_window X) streams h of
           (Inl e, h1) \<Rightarrow> (Inl e, ned, h1, [Trimming])
         | (Inr _, h1) \<Rightarrow>
             (case ned_apply (downsample X) streams h1 of
                (Inl e, h2) \<Rightarrow> (Inl e, ned, h2, [Trimming, Downsampling])
              | (Inr _, h2) \<Rightarrow>
                  (case curate_seismograms X ned h2 of
                     Inl e \<Rightarrow> (Inl e, ned, h2, [Trimming, Downsampling, Curating])
                   | Inr (ned3, h3) \<Rightarrow>
                       (let evids_to_keep = evid_set ned3;
                            evids_discarded = filter (\<lambda>ev. ev \<notin> set evids_to_keep) evids_orig
                        in (Inr (), ned3, h3,
                            [Trimming, Downsampling, Curating,
                             Discarded (length evids_discarded) (length evids_orig)])))))"

text \<open>
  Lines 177 to 187. \<open>np.linspace\<close> over exact reals; the two grids of the source have
  20 and 361 points, so the division is never by zero.
\<close>

definition linspace :: "real \<Rightarrow> real \<Rightarrow> nat \<Rightarrow> bool \<Rightarrow> real list" where
  "linspace start stop num endpoint =
     (let step = (stop - start) / real (if endpoint then num - 1 else num)
      in map (\<lambda>i. start + real i * step) [0..<num])"

definition angles :: "real list" where
  "angles = linspace (- 180) 180 20 False"

text \<open>
  The call of the \<open>joblib.Parallel\<close> object on the jobs, by the contract of joblib:
  the results in the order of the jobs, or the exception of a job that raised. Every
  job works on the store as it is at dispatch and hands back its list of amplitudes
  only.
\<close>

definition job_runner :: "(error + 'a) list \<Rightarrow> error + 'a list" where
  "job_runner jobs = collect jobs"

definition sta_ori_metrics ::
  "(string \<times> nat) list \<Rightarrow> npfloat list list \<Rightarrow> (string \<times> nat \<times> npfloat list) list"
where
  "sta_ori_metrics stations sta_ampls =
     map (\<lambda>((sta, N), ampls). (sta, N, ampls)) (zip stations sta_ampls)"

text \<open>Lines 189 to 238: curve fitting and estimation, per station.\<close>

definition x_grid :: "real list" where
  "x_grid = angles @ [angles ! 0 + 360]"

definition angles_fine :: "real list" where
  "angles_fine = linspace (- 180) 180 361 True"

definition close_curve :: "npfloat list \<Rightarrow> error + npfloat list" where
  "close_curve ampls = (case ampls of [] \<Rightarrow> Inl IndexError | a # _ \<Rightarrow> Inr (ampls @ [a]))"

definition n_valid :: "npfloat list \<Rightarrow> nat" where
  "n_valid y = length (filter isfinite y)"

fun valid_points :: "real list \<Rightarrow> npfloat list \<Rightarrow> (real \<times> real) list" where
  "valid_points (a # x) (Finite v # y) = (a, v) # valid_points x y"
| "valid_points (a # x) (_ # y) = valid_points x y"
| "valid_points _ _ = []"

definition deg2rad :: "real \<Rightarrow> real" where
  "deg2rad a = a * pi / 180"

text \<open>
  Line 213, the fitted curve on the fine grid, read over exact reals. numpy computes it
  in doubles, where the values at the two ends of the grid, -180 and 180, need not be
  equal as they are here; no statement below rests on that equality.
\<close>

definition y_fitted :: "real \<Rightarrow> real \<Rightarrow> real list" where
  "y_fitted A_fit ph_fit = map (\<lambda>a. A_fit * cos (deg2rad (a + ph_fit))) angles_fine"

text \<open>\<open>np.argmax\<close>: the index of the first occurrence of the maximum.\<close>

fun argmax_from :: "nat \<Rightarrow> real \<Rightarrow> nat \<Rightarrow> real list \<Rightarrow> nat" where
  "argmax_from best_i best i [] = best_i"
| "argmax_from best_i best i (v # vs) =
     (if best < v then argmax_from i v (Suc i) vs else argmax_from best_i best (Suc i) vs)"

definition argmax :: "real list \<Rightarrow> error + nat" where
  "argmax vs = (case vs of [] \<Rightarrow> Inl ValueError | v # rest \<Rightarrow> Inr (argmax_from 0 v 1 rest))"

definition angle_max :: "real \<Rightarrow> real \<Rightarrow> error + real" where
  "angle_max A_fit ph_fit =
     (case argmax (y_fitted A_fit ph_fit) of
        Inl e \<Rightarrow> Inl e
      | Inr i \<Rightarrow> Inr (angles_fine ! i))"

definition estimate_station ::
  "('d, 'r) externals \<Rightarrow> string option \<Rightarrow> string \<Rightarrow> string \<Rightarrow> nat \<Rightarrow> npfloat list
     \<Rightarrow> results \<Rightarrow> log_event list \<Rightarrow> (error + results) \<times> log_event list"
where
  "estimate_station X save_plots_path net sta N y res lg =
     (if length y \<noteq> length x_grid then (Inl IndexError, lg)
      else
        let pts = valid_points x_grid y;
            bc = (if isfinite (y ! 0) then Periodic else NotAKnot)
        in case cubic_spline X pts bc angles_fine of
             Inl e \<Rightarrow> (Inl e, lg)
           | Inr yint_cubsp \<Rightarrow>
               (case curve_fit X pts of
                  Inl e \<Rightarrow> (Inl e, lg)
                | Inr (A_fit, ph_fit, cov11) \<Rightarrow>
                    (case angle_max A_fit ph_fit of
                       Inl e \<Rightarrow> (Inl e, lg)
                     | Inr am \<Rightarrow>
                         (let code = full_code net sta;
                              res1 = res(code \<mapsto> (get_entry res code)\<lparr>azimuth_correction := Some am\<rparr>);
                              lg1 = lg @ [Estimate sta am (np_sqrt cov11) N]
                          in case save_plots_path of
                               None \<Rightarrow> (Inr res1, lg1)
                             | Some path \<Rightarrow>
                                 (case save_plot X path code pts yint_cubsp
                                         (y_fitted A_fit ph_fit) N of
                                    Inl e \<Rightarrow> (Inl e, lg1)
                                  | Inr _ \<Rightarrow> (Inr res1, lg1))))))"

fun estimate_stations ::
  "('d, 'r) externals \<Rightarrow> string option \<Rightarrow> string \<Rightarrow> (string \<times> nat \<times> npfloat list) list
     \<Rightarrow> results \<Rightarrow> log_event list \<Rightarrow> (error + results) \<times> log_event list"
where
  "estimate_stations X save_plots_path net [] res lg = (Inr res, lg)"
| "estimate_stations X save_plots_path net ((sta, N, ampls) # rest) res lg =
     (case close_curve ampls of
        Inl e \<Rightarrow> (Inl e, lg)
      | Inr y \<Rightarrow>
          if n_valid y < 5
          then estimate_stations X save_plots_path net rest res
                 (lg @ [InsufficientData sta (n_valid y)])
          else (case estimate_station X save_plots_path net sta N y res lg of
                  (Inl e, lg1) \<Rightarrow> (Inl e, lg1)
                | (Inr res1, lg1) \<Rightarrow> estimate_stations X save_plots_path net rest res1 lg1))"

definition station_jobs ::
  "('d, 'r) externals \<Rightarrow> network_event_dataset \<Rightarrow> 'd store \<Rightarrow> (error + npfloat list) list"
where
  "station_jobs X ned h =
     map (\<lambda>(sta, db). fst (run_single_station X db angles h)) (by_station ned)"

definition analyze_station_orientations ::
  "('d, 'r) externals \<Rightarrow> string option \<Rightarrow> network_event_dataset \<Rightarrow> 'd store
     \<Rightarrow> (error + results) \<times> network_event_dataset \<times> 'd store \<times> log_event list"
where
  "analyze_station_orientations X save_plots_path ned h =
     (if ned_len ned = 0 then (Inr Map.empty, ned, h, [])
      else
        case date_ranges (network ned) h (by_station ned) Map.empty of
          Inl e \<Rightarrow> (Inl e, ned, h, [])
        | Inr results \<Rightarrow>
            (case prepare X ned h of
               (Inl e, ned1, h1, lg) \<Rightarrow> (Inl e, ned1, h1, lg)
             | (Inr _, ned1, h1, lg) \<Rightarrow>
                 (let stations = map (\<lambda>(sta, db). (sta, length db)) (by_station ned1)
                  in case job_runner (station_jobs X ned1 h1) of
                       Inl e \<Rightarrow> (Inl e, ned1, h1, lg @ [Analysing])
                     | Inr sta_ampls \<Rightarrow>
                         (case estimate_stations X save_plots_path (network ned1)
                                 (sta_ori_metrics stations sta_ampls) results (lg @ [Analysing]) of
                            (r, lg1) \<Rightarrow> (r, ned1, h1, lg1)))))"

subsection \<open>A small dataset\<close>

text \<open>
  One network with the station \<open>STA\<close> and two events. The stand-in for the
  receiver-function transform yields no result for event 1 and, for any other event, one
  number per trace: the corrected back-azimuth it was given. A receiver-function trace
  is here a single sample; the stand-in for the stack averages the traces into one, and
  the stand-in for \<open>np.mean\<close> is the exact mean of finite samples. The other
  collaborators leave their input as it is; the fit stand-in answers \<open>A_fit = 1/2\<close>,
  \<open>ph_fit = 180\<close>.
\<close>

fun the_finite :: "npfloat \<Rightarrow> real" where
  "the_finite (Finite v) = v"
| "the_finite PosInf = 0"
| "the_finite NegInf = 0"
| "the_finite NaN = 0"

definition exact_mean :: "npfloat list \<Rightarrow> npfloat" where
  "exact_mean ds =
     (if ds = [] \<or> \<not> list_all isfinite ds then NaN
      else Finite (sum_list (map the_finite ds) / real (length ds)))"

definition example_trace :: "unit trace" where
  "example_trace = \<lparr>back_azimuth = 350, starttime = 100, endtime = 200, onset = 150, tdata = ()\<rparr>"

definition example_store :: "unit store" where
  "example_store = [[example_trace], [example_trace\<lparr>back_azimuth := 10, endtime := 300\<rparr>]]"

definition example_db :: db_evid where
  "example_db = [(1, 0), (2, 1)]"

definition example_ned :: network_event_dataset where
  "example_ned = \<lparr>network = ''XX'', db_sta = [(''STA'', example_db)]\<rparr>"

definition example_externals :: "(unit, real) externals" where
  "example_externals =
     \<lparr>transform_stream_to_rf =
        (\<lambda>ev s. if ev = 1 then Inr None else Inr (Some (map back_azimuth s))),
      rf_select = (\<lambda>rs c. Inr rs),
      rf_trim2 = (\<lambda>rs t1 t2 reftime. Inr rs),
      rf_detrend = (\<lambda>rs t. Inr rs),
      rf_taper = (\<lambda>rs p. Inr rs),
      rf_stack = (\<lambda>rs. Inr [sum_list rs / real (length rs)]),
      rf_data = (\<lambda>r. [Finite r]),
      np_mean = exact_mean,
      stream_trim = (\<lambda>s t1 t2. Inr s),
      stream_lowpass = (\<lambda>s f. Inr s),
      stream_interpolate = (\<lambda>s f. Inr s),
      curate_seismograms = (\<lambda>ned h. Inr (ned, h)),
      cubic_spline = (\<lambda>pts bc xs. Inr (map (\<lambda>a. 0) xs)),
      curve_fit = (\<lambda>pts. Inr (1 / 2, 180, Finite 0)),
      save_plot = (\<lambda>path code pts yint yfit N. Inr ())\<rparr>"

text \<open>The same collaborators, with a transform that never yields a result.\<close>

definition silent_externals :: "(unit, real) externals" where
  "silent_externals = example_externals\<lparr>transform_stream_to_rf := (\<lambda>ev s. Inr None)\<rparr>"

text \<open>
  The amplitude curves of station \<open>STA\<close> under the two sets of collaborators: with the
  first, event 2 contributes its corrected back-azimuth (10 degrees before correction)
  at every angle; with the second, nothing contributes at any angle.
\<close>

definition example_curve :: "npfloat list" where
  "example_curve = map (\<lambda>c. Finite (wrap_back_azimuth (10 + c))) angles"

definition silent_curve :: "npfloat list" where
  "silent_curve = map (\<lambda>c. NaN) angles"

definition example_log :: "log_event list" where
  "example_log = [Trimming, Downsampling, Curating, Discarded 0 2, Analysing]"

definition example_dates :: entry where
  "example_dates = \<lparr>date_range = Some (Some 100, Some 300), azimuth_correction = None\<rparr>"

lemma wrap_neg_nonneg: "0 \<le> wrap_neg b"
  by (induction b rule: wrap_neg.induct) (simp add: wrap_neg.simps)

lemma wrap_neg_below: "b < 360 \<Longrightarrow> wrap_neg b < 360"
  by (induction b rule: wrap_neg.induct) (simp add: wrap_neg.simps)

lemma wrap_neg_id: "0 \<le> b \<Longrightarrow> wrap_neg b = b"
  by (simp add: wrap_neg.simps)

lemma wrap_over_below: "wrap_over b < 360"
  by (induction b rule: wrap_over.induct) (simp add: wrap_over.simps)

lemma wrap_over_nonneg: "0 \<le> b \<Longrightarrow> 0 \<le> wrap_over b"
  by (induction b rule: wrap_over.induct) (simp add: wrap_over.simps)

lemma wrap_over_id: "b < 360 \<Longrightarrow> wrap_over b = b"
  by (simp add: wrap_over.simps)

lemma wrap_back_azimuth_range: "0 \<le> wrap_back_azimuth b \<and> wrap_back_azimuth b < 360"
  by (simp add: wrap_back_azimuth_def wrap_neg_nonneg wrap_over_nonneg wrap_over_below)

lemma wrap_back_azimuth_id: "0 \<le> b \<Longrightarrow> b < 360 \<Longrightarrow> wrap_back_azimuth b = b"
  by (simp add: wrap_back_azimuth_def wrap_neg_id wrap_over_id)

lemma wrap_neg_turns: "\<exists>n::nat. wrap_neg b = b + 360 * real n"
proof (induction b rule: wrap_neg.induct)
  case (1 b)
  show ?case
  proof (cases "b < 0")
    case True
    with 1 obtain n :: nat where "wrap_neg (b + 360) = b + 360 + 360 * real n" by blast
    with True have "wrap_neg b = b + 360 * real (Suc n)" by (simp add: wrap_neg.simps)
    then show ?thesis by blast
  next
    case False
    then have "wrap_neg b = b + 360 * real 0" by (simp add: wrap_neg.simps)
    then show ?thesis by blast
  qed
qed

lemma wrap_over_turns: "\<exists>n::nat. wrap_over b = b - 360 * real n"
proof (induction b rule: wrap_over.induct)
  case (1 b)
  show ?case
  proof (cases "360 \<le> b")
    case True
    with 1 obtain n :: nat where "wrap_over (b - 360) = b - 360 - 360 * real n" by blast
    with True have "wrap_over b = b - 360 * real (Suc n)" by (simp add: wrap_over.simps)
    then show ?thesis by blast
  next
    case False
    then have "wrap_over b = b - 360 * real 0" by (simp add: wrap_over.simps)
    then show ?thesis by blast
  qed
qed

lemma wrap_back_azimuth_turns: "\<exists>k::int. wrap_back_azimuth b = b + 360 * real_of_int k"
proof -
  obtain n :: nat where n: "wrap_neg b = b + 360 * real n"
    using wrap_neg_turns by blast
  obtain m :: nat where m: "wrap_over (wrap_neg b) = wrap_neg b - 360 * real m"
    using wrap_over_turns by blast
  have "wrap_back_azimuth b = wrap_neg b - 360 * real m"
    by (simp only: wrap_back_azimuth_def m)
  also have "\<dots> = b + 360 * real n - 360 * real m"
    by (simp only: n)
  also have "\<dots> = b + 360 * real_of_int (int n - int m)"
    by (simp add: algebra_simps)
  finally show ?thesis by blast
qed

subsection \<open>The wrap loops in double precision\<close>

lemma round_half_even_error: "\<bar>of_int (round_half_even z) - z\<bar> \<le> 1 / 2"
  unfolding round_half_even_def Let_def by (auto simp: abs_if) linarith+

lemma round_half_even_nonneg: "0 \<le> z \<Longrightarrow> 0 \<le> round_half_even z"
  unfolding round_half_even_def Let_def by (auto simp: zero_le_floor)

lemma round_half_even_int: "round_half_even (of_int k) = k"
  unfolding round_half_even_def Let_def by simp

lemma fl_nonneg: "0 \<le> x \<Longrightarrow> 0 \<le> fl x"
  unfolding fl_def by (auto intro!: mult_nonneg_nonneg simp: round_half_even_nonneg)

lemma ulp_exponent_small:
  assumes "x \<noteq> 0" and "\<bar>x\<bar> < 2 ^ 53"
  shows "ulp_exponent x \<le> 0"
proof -
  have "\<bar>x\<bar> < 2 powr 53" using assms(2) by (simp add: powr_numeral)
  then have "log 2 \<bar>x\<bar> < 53"
    using assms(1) by (simp add: log_less_iff)
  then have "\<lfloor>log 2 \<bar>x\<bar>\<rfloor> \<le> 52" by linarith
  then show ?thesis by (simp add: ulp_exponent_def)
qed

lemma ulp_exponent_wide:
  assumes "x \<noteq> 0" and "\<bar>x\<bar> < 2 ^ 62"
  shows "ulp_exponent x \<le> 9"
proof -
  have "\<bar>x\<bar> < 2 powr 62" using assms(2) by (simp add: powr_numeral)
  then have "log 2 \<bar>x\<bar> < 62"
    using assms(1) by (simp add: log_less_iff)
  then have "\<lfloor>log 2 \<bar>x\<bar>\<rfloor> \<le> 61" by linarith
  then show ?thesis by (simp add: ulp_exponent_def)
qed

text \<open>
  Below \<open>2^62\<close> in magnitude the doubles are at most 512 apart, so a rounding moves a
  value by at most 256, less than the 360 a step of a loop adds or takes away.
\<close>

lemma fl_error:
  assumes "\<bar>x\<bar> < 2 ^ 62"
  shows "\<bar>fl x - x\<bar> \<le> 256"
proof (cases "x = 0")
  case True
  then show ?thesis by (simp add: fl_def)
next
  case False
  define u :: real where "u = 2 powr of_int (ulp_exponent x)"
  have upos: "0 < u" by (simp add: u_def)
  have "ulp_exponent x \<le> 9" using False assms by (rule ulp_exponent_wide)
  then have "2 powr of_int (ulp_exponent x) \<le> (2::real) powr of_int 9"
    by (simp only: powr_le_cancel_iff)
  then have ule: "u \<le> 512" unfolding u_def by simp
  have "fl x - x = u * (of_int (round_half_even (x / u)) - x / u)"
    using False upos by (simp add: fl_def u_def field_simps)
  then have "\<bar>fl x - x\<bar> = u * \<bar>of_int (round_half_even (x / u)) - x / u\<bar>"
    using upos by (simp add: abs_mult)
  also have "\<dots> \<le> u * (1 / 2)"
    using upos round_half_even_error [of "x / u"] by (intro mult_left_mono) auto
  also have "\<dots> \<le> 256" using ule by simp
  finally show ?thesis .
qed

lemma wrap_neg_d_terminates:
  assumes "- (2 ^ 62) < x" and "x < 2 ^ 62"
  shows "\<exists>r. wrap_neg_d x = Some r \<and> 0 \<le> r \<and> r < 2 ^ 62"
  using assms
proof (induction x rule: measure_induct_rule [where f = "\<lambda>x. nat \<lceil>- x / 104\<rceil>"])
  case (less x)
  show ?case
  proof (cases "x < 0")
    case False
    then have "wrap_neg_d x = Some x" by (simp add: wrap_neg_d.simps)
    with False less.prems show ?thesis by simp
  next
    case True
    let ?y = "x + 360"
    from True less.prems have y: "\<bar>?y\<bar> < 2 ^ 62" by (simp add: abs_if)
    from fl_error [OF y] have lo: "x + 104 \<le> fl ?y" and hi: "fl ?y \<le> x + 616"
      by linarith+
    from lo less.prems have b1: "- (2 ^ 62) < fl ?y" by simp
    from hi True have b2: "fl ?y < 2 ^ 62" by simp
    have "- fl ?y / 104 \<le> - x / 104 - 1"
      using lo by (simp add: field_simps)
    then have "\<lceil>- fl ?y / 104\<rceil> \<le> \<lceil>- x / 104 - 1\<rceil>"
      by (rule ceiling_mono)
    also have "\<dots> = \<lceil>- x / 104\<rceil> - 1" by (rule ceiling_diff_one)
    finally have step: "\<lceil>- fl ?y / 104\<rceil> \<le> \<lceil>- x / 104\<rceil> - 1" .
    from True have "0 < - x / 104" by simp
    then have "0 < \<lceil>- x / 104\<rceil>" by (simp only: zero_less_ceiling)
    with step have "nat \<lceil>- fl ?y / 104\<rceil> < nat \<lceil>- x / 104\<rceil>" by linarith
    from less.IH [OF this b1 b2] obtain r where
      "wrap_neg_d (fl ?y) = Some r" "0 \<le> r" "r < 2 ^ 62" by blast
    moreover from True have "wrap_neg_d x = wrap_neg_d (fl ?y)"
      by (subst wrap_neg_d.simps) simp
    ultimately show ?thesis by simp
  qed
qed

lemma wrap_over_d_terminates:
  assumes "0 \<le> x" and "x < 2 ^ 62"
  shows "\<exists>r. wrap_over_d x = Some r \<and> 0 \<le> r \<and> r < 360"
  using assms
proof (induction x rule: measure_induct_rule [where f = "\<lambda>x. nat \<lfloor>x / 104\<rfloor>"])
  case (less x)
  show ?case
  proof (cases "360 \<le> x")
    case False
    then have "wrap_over_d x = Some x" by (simp add: wrap_over_d.simps)
    with False less.prems show ?thesis by simp
  next
    case True
    let ?y = "x - 360"
    from True less.prems have y: "\<bar>?y\<bar> < 2 ^ 62" by (simp add: abs_if)
    from fl_error [OF y] have hi: "fl ?y \<le> x - 104"
      by linarith
    from True have b1: "0 \<le> fl ?y" by (intro fl_nonneg) simp
    from hi less.prems have b2: "fl ?y < 2 ^ 62" by simp
    have "fl ?y / 104 \<le> x / 104 - 1"
      using hi by (simp add: field_simps)
    then have "\<lfloor>fl ?y / 104\<rfloor> \<le> \<lfloor>x / 104 - 1\<rfloor>"
      by (rule floor_mono)
    also have "\<dots> = \<lfloor>x / 104\<rfloor> - 1" by (rule floor_diff_one)
    finally have step: "\<lfloor>fl ?y / 104\<rfloor> \<le> \<lfloor>x / 104\<rfloor> - 1" .
    from True have "1 \<le> x / 104" by simp
    then have "1 \<le> \<lfloor>x / 104\<rfloor>" by (simp only: one_le_floor)
    with step have "nat \<lfloor>fl ?y / 104\<rfloor> < nat \<lfloor>x / 104\<rfloor>" by linarith
    from less.IH [OF this b1 b2] obtain r where
      "wrap_over_d (fl ?y) = Some r" "0 \<le> r" "r < 360" by blast
    moreover from True have "wrap_over_d x = wrap_over_d (fl ?y)"
      by (subst wrap_over_d.simps) simp
    ultimately show ?thesis by simp
  qed
qed

lemma wrap_over_d_stuck:
  assumes "360 \<le> c" and "fl (c - 360) = c"
  shows "wrap_over_d c = None"
proof -
  have "x \<noteq> c" if "wrap_over_d x = Some y" for x y
    by (rule wrap_over_d.raw_induct [where P = "\<lambda>x y. x \<noteq> c", OF _ that])
      (use assms in \<open>auto split: if_splits\<close>)
  then show ?thesis by (cases "wrap_over_d c") auto
qed

lemma ulp_exponent_binade:
  assumes "2 ^ 63 \<le> x" and "x < 2 ^ 64"
  shows "ulp_exponent x = 11"
proof -
  from assms have pos: "0 < x" by simp
  have "\<lfloor>log 2 x\<rfloor> = 63"
    using assms pos by (simp add: floor_log_eq_powr_iff)
  with pos show ?thesis by (simp add: ulp_exponent_def)
qed

lemma two_powr_11: "(2::real) powr 11 = 2048"
  by simp

lemma fl_absorb: "fl 9999999999999999640 = 10000000000000000000"
proof -
  have e: "ulp_exponent 9999999999999999640 = 11"
    by (rule ulp_exponent_binade) simp_all
  have fl: "\<lfloor>9999999999999999640 / (2048::real)\<rfloor> = 4882812499999999"
    by (simp add: floor_eq_iff)
  have r: "round_half_even (9999999999999999640 / 2048) = 4882812500000000"
    unfolding round_half_even_def Let_def fl by simp
  have "fl 9999999999999999640
      = of_int (round_half_even (9999999999999999640 / 2048)) * 2048"
    unfolding fl_def e by (simp only: two_powr_11 of_int_numeral) simp
  then show ?thesis unfolding r by simp
qed

lemma fl_exact: "fl 10000000000000000000 = 10000000000000000000"
proof -
  have e: "ulp_exponent 10000000000000000000 = 11"
    by (rule ulp_exponent_binade) simp_all
  have "10000000000000000000 / (2048::real) = of_int 4882812500000000" by simp
  then have r: "round_half_even (10000000000000000000 / 2048) = 4882812500000000"
    by (simp only: round_half_even_int)
  have "fl 10000000000000000000
      = of_int (round_half_even (10000000000000000000 / 2048)) * 2048"
    unfolding fl_def e by (simp only: two_powr_11 of_int_numeral) simp
  then show ?thesis unfolding r by simp
qed

text \<open>
  Integers below \<open>2^53\<close> in magnitude are doubles, and so are their sums and
  differences in that range: on an integer back-azimuth and an integer correction (the
  grid angles \<open>-180 + 18 i\<close> are integers) nothing is rounded, and the loops in doubles
  compute what the loops over exact reals compute.
\<close>

lemma two_powr_neg_int:
  assumes "q \<le> 0"
  shows "(2::real) powr of_int q = 1 / 2 ^ nat (- q)"
proof -
  have "(2::real) powr of_int q = 2 powr (- real (nat (- q)))"
    using assms by simp
  also have "\<dots> = 1 / 2 powr real (nat (- q))"
    by (simp add: powr_minus_divide)
  also have "\<dots> = 1 / 2 ^ nat (- q)"
    by (simp add: powr_realpow)
  finally show ?thesis .
qed

lemma fl_of_int:
  assumes "\<bar>k\<bar> < 2 ^ 53"
  shows "fl (of_int k) = of_int k"
proof (cases "k = 0")
  case True
  then show ?thesis by (simp add: fl_def)
next
  case False
  let ?x = "real_of_int k"
  from assms have "\<bar>?x\<bar> < 2 ^ 53"
    by (metis of_int_abs of_int_less_numeral_power_cancel_iff)
  with False have q: "ulp_exponent ?x \<le> 0"
    by (intro ulp_exponent_small) auto
  define n where "n = nat (- ulp_exponent ?x)"
  have u: "(2::real) powr of_int (ulp_exponent ?x) = 1 / 2 ^ n"
    unfolding n_def using q by (rule two_powr_neg_int)
  have "?x / (1 / 2 ^ n) = of_int (k * 2 ^ n)" by simp
  then have "round_half_even (?x / (1 / 2 ^ n)) = k * 2 ^ n"
    by (simp only: round_half_even_int)
  then show ?thesis using False by (simp add: fl_def u)
qed

lemma wrap_neg_d_exact:
  assumes "- (2 ^ 53) < k" and "k < 2 ^ 53"
  shows "wrap_neg_d (of_int k) = Some (wrap_neg (of_int k))"
  using assms
proof (induction "real_of_int k" arbitrary: k rule: wrap_neg.induct)
  case 1
  show ?case
  proof (cases "real_of_int k < 0")
    case False
    then show ?thesis by (simp add: wrap_neg_d.simps wrap_neg.simps)
  next
    case True
    then have neg: "k < 0" by simp
    with "1.prems" have b: "- (2 ^ 53) < k + 360" "k + 360 < 2 ^ 53" by simp_all
    then have "\<bar>k + 360\<bar> < 2 ^ 53" by simp
    then have exact: "fl (real_of_int k + 360) = real_of_int (k + 360)"
      using fl_of_int [of "k + 360"] by simp
    have "wrap_neg_d (real_of_int (k + 360)) = Some (wrap_neg (real_of_int (k + 360)))"
      using True b by (intro "1.hyps") simp_all
    then show ?thesis
      using True exact by (subst wrap_neg_d.simps, subst wrap_neg.simps) simp
  qed
qed

lemma wrap_over_d_exact:
  assumes "0 \<le> k" and "k < 2 ^ 53"
  shows "wrap_over_d (of_int k) = Some (wrap_over (of_int k))"
  using assms
proof (induction "real_of_int k" arbitrary: k rule: wrap_over.induct)
  case 1
  show ?case
  proof (cases "360 \<le> real_of_int k")
    case False
    then show ?thesis by (simp add: wrap_over_d.simps wrap_over.simps)
  next
    case True
    then have big: "360 \<le> k" by simp
    with "1.prems" have b: "0 \<le> k - 360" "k - 360 < 2 ^ 53" by simp_all
    then have "\<bar>k - 360\<bar> < 2 ^ 53" by simp
    then have exact: "fl (real_of_int k - 360) = real_of_int (k - 360)"
      using fl_of_int [of "k - 360"] by simp
    have "wrap_over_d (real_of_int (k - 360)) = Some (wrap_over (real_of_int (k - 360)))"
      using True b by (intro "1.hyps") simp_all
    then show ?thesis
      using True exact by (subst wrap_over_d.simps, subst wrap_over.simps) simp
  qed
qed

lemma of_int_wrap_neg: "\<exists>j. wrap_neg (of_int k) = of_int j \<and> 0 \<le> j \<and> (j = k \<or> j < 360)"
proof (induction "real_of_int k" arbitrary: k rule: wrap_neg.induct)
  case 1
  show ?case
  proof (cases "real_of_int k < 0")
    case False
    then have "wrap_neg (of_int k) = of_int k" "0 \<le> k" by (simp_all add: wrap_neg.simps)
    then show ?thesis by blast
  next
    case True
    have "real_of_int k + 360 = real_of_int (k + 360)" by simp
    from "1.hyps" [OF True this] obtain j where
      j: "wrap_neg (real_of_int (k + 360)) = of_int j" "0 \<le> j" "j = k + 360 \<or> j < 360"
      by blast
    from True have "wrap_neg (of_int k) = wrap_neg (real_of_int (k + 360))"
      by (subst wrap_neg.simps) simp
    with j True show ?thesis by (intro exI [of _ j]) auto
  qed
qed

lemma wrap_back_azimuth_d_exact:
  assumes "\<bar>k + c\<bar> < 2 ^ 53"
  shows "wrap_back_azimuth_d (of_int k) (of_int c) = Some (wrap_back_azimuth (of_int k + of_int c))"
proof -
  have sum: "real_of_int k + real_of_int c = real_of_int (k + c)" by simp
  from assms have exact: "fl (real_of_int (k + c)) = real_of_int (k + c)" by (rule fl_of_int)
  from assms have b: "- (2 ^ 53) < k + c" "k + c < 2 ^ 53" by simp_all
  from wrap_neg_d_exact [OF b]
  have n: "wrap_neg_d (real_of_int (k + c)) = Some (wrap_neg (real_of_int (k + c)))" .
  from of_int_wrap_neg [of "k + c"] obtain j where
    j: "wrap_neg (real_of_int (k + c)) = of_int j" "0 \<le> j" "j = k + c \<or> j < 360" by blast
  from j(3) b have "j < 2 ^ 53" by auto
  from wrap_over_d_exact [OF j(2) this]
  have "wrap_over_d (real_of_int j) = Some (wrap_over (real_of_int j))" .
  with n j(1) show ?thesis
    by (simp only: wrap_back_azimuth_d_def wrap_back_azimuth_def sum exact option.case)
qed

lemma wrap_back_azimuth_d_example: "wrap_back_azimuth_d 350 162 = Some 152"
proof -
  have "wrap_back_azimuth_d (of_int 350) (of_int 162)
      = Some (wrap_back_azimuth (of_int 350 + of_int 162))"
    by (rule wrap_back_azimuth_d_exact) simp
  then show ?thesis
    by (simp add: wrap_back_azimuth_def wrap_neg.simps wrap_over.simps)
qed

text \<open>
  Claim C2, as the code has it. For a back-azimuth \<open>b\<close> and a candidate correction \<open>a\<close>
  with \<open>|b + a| \<le> 2^61\<close> (about \<open>2.3e18\<close>; a back-azimuth in degrees and a grid angle
  are far inside), the correction and the two loops, in doubles, end with a value in
  \<open>[0, 360)\<close>, and on that value both loops do nothing: the wrap is idempotent, a value
  already in range is left as it is.
\<close>

theorem wrap_d_bounded:
  assumes "\<bar>b + a\<bar> \<le> 2 ^ 61"
  shows "(\<exists>r. wrap_back_azimuth_d b a = Some r \<and> 0 \<le> r \<and> r < 360
           \<and> wrap_neg_d r = Some r \<and> wrap_over_d r = Some r)
       \<and> (0 \<le> c \<and> c < 360 \<longrightarrow> wrap_neg_d c = Some c \<and> wrap_over_d c = Some c)"
proof -
  have fixed: "0 \<le> c \<and> c < 360 \<longrightarrow> wrap_neg_d c = Some c \<and> wrap_over_d c = Some c"
    by (simp add: wrap_neg_d.simps wrap_over_d.simps)
  from assms have small: "\<bar>b + a\<bar> < 2 ^ 62" by simp
  define s where "s = b + a"
  define t where "t = fl (b + a)"
  from fl_error [OF small] have e1: "t - s \<le> 256" and e2: "s - t \<le> 256"
    unfolding s_def t_def by linarith+
  from assms have s1: "s \<le> 2 ^ 61" and s2: "- (2 ^ 61) \<le> s"
    unfolding s_def by linarith+
  have "- (2 ^ 62) < t" "t < 2 ^ 62"
    using e1 e2 s1 s2 by simp_all
  then have "- (2 ^ 62) < fl (b + a)" "fl (b + a) < 2 ^ 62"
    unfolding t_def by simp_all
  from wrap_neg_d_terminates [OF this] obtain r1 where
    r1: "wrap_neg_d (fl (b + a)) = Some r1" "0 \<le> r1" "r1 < 2 ^ 62" by blast
  from wrap_over_d_terminates [OF r1(2,3)] obtain r where
    r: "wrap_over_d r1 = Some r" "0 \<le> r" "r < 360" by blast
  from r have "wrap_neg_d r = Some r" "wrap_over_d r = Some r"
    by (simp_all add: wrap_neg_d.simps wrap_over_d.simps)
  with r1 r have "\<exists>r. wrap_back_azimuth_d b a = Some r \<and> 0 \<le> r \<and> r < 360
           \<and> wrap_neg_d r = Some r \<and> wrap_over_d r = Some r"
    by (simp add: wrap_back_azimuth_d_def)
  then show ?thesis using fixed by (rule conjI)
qed

theorem wrap_d_bounded_witness:
  "(\<exists>r. wrap_back_azimuth_d 350 162 = Some r \<and> 0 \<le> r \<and> r < 360
         \<and> wrap_neg_d r = Some r \<and> wrap_over_d r = Some r)
   \<and> wrap_neg_d 90 = Some 90 \<and> wrap_over_d 90 = Some 90"
proof -
  have "\<bar>350 + 162 :: real\<bar> \<le> 2 ^ 61" by simp
  from wrap_d_bounded [OF this, of 90] show ?thesis by simp
qed

text \<open>
  Without a bound the claim fails: at the finite back-azimuth \<open>1e19\<close> and the grid
  angle 0 the subtraction of 360 is absorbed by the rounding (the doubles near \<open>1e19\<close>
  are 2048 apart), so the second loop never ends.
\<close>

theorem wrap_absorbed_counterexample: "wrap_back_azimuth_d (10 ^ 19) 0 = None"
proof -
  have "wrap_neg_d 10000000000000000000 = Some 10000000000000000000"
    by (simp add: wrap_neg_d.simps)
  moreover have "wrap_over_d 10000000000000000000 = None"
    by (rule wrap_over_d_stuck) (simp_all add: fl_absorb)
  ultimately show ?thesis using fl_exact by (simp add: wrap_back_azimuth_d_def)
qed

subsection \<open>The store under the per-station job\<close>

text \<open>
  \<open>take (length h) h' = h\<close> says that the store \<open>h'\<close> is \<open>h\<close> with new objects behind
  it: every object of \<open>h\<close> is still there under its reference, unchanged.
\<close>

lemma take_append_same: "take (length h) (h @ zs) = h"
  by simp

lemma take_length_le:
  assumes "take (length h0) h = h0"
  shows "length h0 \<le> length h"
proof -
  from assms have "length (take (length h0) h) = length h0" by (simp only:)
  then have "min (length h0) (length h) = length h0" by (simp only: length_take)
  then show ?thesis by linarith
qed

lemma take_trans:
  assumes "take (length h) h1 = h" and "take (length h1) h2 = h1"
  shows "take (length h) h2 = h"
proof -
  from assms(1) have len: "length h \<le> length h1"
    by (rule take_length_le)
  have "take (length h) h2 = take (length h) (take (length h1) h2)"
    using len by (simp add: min_def)
  also have "\<dots> = h" using assms by simp
  finally show ?thesis .
qed

lemma take_nth_same:
  assumes "take (length h0) h = h0" and "r < length h0"
  shows "h ! r = h0 ! r"
proof -
  have "h0 ! r = take (length h0) h ! r" using assms(1) by simp
  also have "\<dots> = h ! r" using assms(2) by simp
  finally show ?thesis by simp
qed

lemma copy_step_take:
  "take (length h) (rotate_stream c (fst (deepcopy r h)) (snd (deepcopy r h))) = h"
  by (simp add: rotate_stream_def deepcopy_def)

lemma copy_step_read:
  "rotate_stream c (fst (deepcopy r h)) (snd (deepcopy r h)) ! fst (deepcopy r h)
     = map (rotate_trace c) (h ! r)"
  by (simp add: rotate_stream_def deepcopy_def)

lemma events_loop_take:
  "take (length h) (snd (events_loop X c db acc h)) = h"
proof (induction db arbitrary: acc h)
  case Nil
  show ?case by simp
next
  case (Cons p db)
  obtain ev r where p: "p = (ev, r)" by (cases p)
  define h2 where "h2 = rotate_stream c (fst (deepcopy r h)) (snd (deepcopy r h))"
  have step: "take (length h) h2 = h"
    unfolding h2_def by (rule copy_step_take)
  have rest: "take (length h2) (snd (events_loop X c db acc' h2)) = h2" for acc'
    by (rule Cons.IH)
  show ?case
  proof (cases "transform_stream_to_rf X ev (h2 ! fst (deepcopy r h))")
    case (Inl e)
    then show ?thesis using step by (simp add: p h2_def Let_def)
  next
    case (Inr res)
    show ?thesis
    proof (cases res)
      case None
      have "snd (events_loop X c (p # db) acc h) = snd (events_loop X c db acc h2)"
        using Inr None by (simp add: p h2_def Let_def)
      then show ?thesis using take_trans [OF step rest] by simp
    next
      case (Some rf)
      have "snd (events_loop X c (p # db) acc h) = snd (events_loop X c db (acc @ rf) h2)"
        using Inr Some by (simp add: p h2_def Let_def)
      then show ?thesis using take_trans [OF step rest] by simp
    qed
  qed
qed

lemma events_loop_result:
  assumes "\<forall>(ev, r) \<in> set db. r < length h0" and "take (length h0) h = h0"
  shows "fst (events_loop X c db acc h) =
           (case gather_rf (map (event_rf X c h0) db) of
              Inl e \<Rightarrow> Inl e
            | Inr rfs \<Rightarrow> Inr (acc @ rfs))"
  using assms
proof (induction db arbitrary: acc h)
  case Nil
  show ?case by simp
next
  case (Cons p db)
  obtain ev r where p: "p = (ev, r)" by (cases p)
  define h2 where "h2 = rotate_stream c (fst (deepcopy r h)) (snd (deepcopy r h))"
  from Cons.prems p have r: "r < length h0" and refs: "\<forall>(ev, r) \<in> set db. r < length h0"
    by auto
  have read: "h2 ! fst (deepcopy r h) = map (rotate_trace c) (h0 ! r)"
    unfolding h2_def using copy_step_read [of c r h] take_nth_same [OF Cons.prems(2) r]
    by simp
  have "take (length h) h2 = h"
    unfolding h2_def by (rule copy_step_take)
  with Cons.prems(2) have h2: "take (length h0) h2 = h0"
    by (rule take_trans)
  have rest: "fst (events_loop X c db acc' h2) =
           (case gather_rf (map (event_rf X c h0) db) of
              Inl e \<Rightarrow> Inl e
            | Inr rfs \<Rightarrow> Inr (acc' @ rfs))" for acc'
    using Cons.IH [OF refs h2] .
  have ev_rf: "event_rf X c h0 p = transform_stream_to_rf X ev (h2 ! fst (deepcopy r h))"
    by (simp add: event_rf_def p read)
  show ?case
  proof (cases "transform_stream_to_rf X ev (h2 ! fst (deepcopy r h))")
    case (Inl e)
    then show ?thesis using ev_rf by (simp add: p h2_def Let_def)
  next
    case (Inr res)
    show ?thesis
    proof (cases res)
      case None
      have "fst (events_loop X c (p # db) acc h) = fst (events_loop X c db acc h2)"
        using Inr None by (simp add: p h2_def Let_def)
      then show ?thesis using rest [of acc] ev_rf Inr None by simp
    next
      case (Some rf)
      have "fst (events_loop X c (p # db) acc h) = fst (events_loop X c db (acc @ rf) h2)"
        using Inr Some by (simp add: p h2_def Let_def)
      then show ?thesis using rest [of "acc @ rf"] ev_rf Inr Some
        by (simp split: sum.splits)
    qed
  qed
qed

lemma angle_sweep_take: "take (length h) (snd (angle_sweep X db c h)) = h"
proof -
  have "snd (angle_sweep X db c h) = snd (events_loop X c db [] h)"
    by (simp add: angle_sweep_def split: prod.splits sum.splits)
  then show ?thesis by (simp add: events_loop_take)
qed

lemma angle_sweep_result:
  assumes "\<forall>(ev, r) \<in> set db. r < length h0" and "take (length h0) h = h0"
  shows "fst (angle_sweep X db c h) = sweep_metric X db c h0"
proof -
  obtain r h1 where ev: "events_loop X c db [] h = (r, h1)"
    by (cases "events_loop X c db [] h")
  have "fst (events_loop X c db [] h) =
           (case gather_rf (map (event_rf X c h0) db) of
              Inl e \<Rightarrow> Inl e
            | Inr rfs \<Rightarrow> Inr ([] @ rfs))"
    using assms by (rule events_loop_result)
  with ev have r: "r = gather_rf (map (event_rf X c h0) db)"
    by (simp split: sum.splits)
  show ?thesis
  proof (cases r)
    case (Inl e)
    then show ?thesis using ev r by (simp add: angle_sweep_def sweep_metric_def)
  next
    case (Inr rfs)
    then show ?thesis using ev r by (simp add: angle_sweep_def sweep_metric_def)
  qed
qed

lemma angles_loop_take: "take (length h) (snd (angles_loop X db cs ampls h)) = h"
proof (induction cs arbitrary: ampls h)
  case Nil
  show ?case by simp
next
  case (Cons c cs)
  obtain r h1 where sw: "angle_sweep X db c h = (r, h1)" by (cases "angle_sweep X db c h")
  have step: "take (length h) h1 = h"
    using angle_sweep_take [of h X db c] sw by simp
  show ?case
  proof (cases r)
    case (Inl e)
    then show ?thesis using sw step by simp
  next
    case (Inr v)
    have "take (length h1) (snd (angles_loop X db cs (ampls @ [v]) h1)) = h1"
      by (rule Cons.IH)
    with step have "take (length h) (snd (angles_loop X db cs (ampls @ [v]) h1)) = h"
      by (rule take_trans)
    then show ?thesis using sw Inr by simp
  qed
qed

lemma angles_loop_result:
  assumes "\<forall>(ev, r) \<in> set db. r < length h0" and "take (length h0) h = h0"
  shows "fst (angles_loop X db cs ampls h) =
           (case collect (map (\<lambda>c. sweep_metric X db c h0) cs) of
              Inl e \<Rightarrow> Inl e
            | Inr vs \<Rightarrow> Inr (ampls @ vs))"
  using assms(2)
proof (induction cs arbitrary: ampls h)
  case Nil
  show ?case by simp
next
  case (Cons c cs)
  obtain r h1 where sw: "angle_sweep X db c h = (r, h1)" by (cases "angle_sweep X db c h")
  have r: "r = sweep_metric X db c h0"
    using angle_sweep_result [OF assms(1) Cons.prems, of X c] sw by simp
  have "take (length h) h1 = h"
    using angle_sweep_take [of h X db c] sw by simp
  with Cons.prems have h1: "take (length h0) h1 = h0"
    by (rule take_trans)
  show ?case
  proof (cases r)
    case (Inl e)
    then show ?thesis using sw r by simp
  next
    case (Inr v)
    have "fst (angles_loop X db (c # cs) ampls h) = fst (angles_loop X db cs (ampls @ [v]) h1)"
      using sw Inr by simp
    also have "\<dots> = (case collect (map (\<lambda>c. sweep_metric X db c h0) cs) of
              Inl e \<Rightarrow> Inl e
            | Inr vs \<Rightarrow> Inr ((ampls @ [v]) @ vs))"
      using Cons.IH [OF h1] .
    finally have loop: "fst (angles_loop X db (c # cs) ampls h) =
            (case collect (map (\<lambda>c. sweep_metric X db c h0) cs) of
              Inl e \<Rightarrow> Inl e
            | Inr vs \<Rightarrow> Inr ((ampls @ [v]) @ vs))" .
    have sm: "sweep_metric X db c h0 = Inr v" using r Inr by simp
    show ?thesis unfolding loop by (simp add: sm split: sum.splits)
  qed
qed






lemma angles_grid: "angles = map (\<lambda>i. - 180 + 18 * real i) [0..<20]"
  by (simp add: angles_def linspace_def)

lemma example_refs: "\<forall>(ev, r) \<in> set example_db. r < length example_store"
  by (simp add: example_db_def example_store_def)

text \<open>
  Claim C8. The Angle Sweep Evaluator does not change the caller's event collection:
  every write goes to the fresh copy made by \<open>copy.deepcopy\<close>. After one candidate
  angle, and after the whole job, the store begins with the store the caller handed in,
  object for object; what was added are the copies.
\<close>

theorem run_single_station_frame:
  "take (length h) (snd (angle_sweep X db correction h)) = h
   \<and> take (length h) (snd (run_single_station X db cs h)) = h"
  by (simp add: run_single_station_def angle_sweep_take angles_loop_take)

theorem run_single_station_frame_witness:
  "take 2 (snd (run_single_station example_externals example_db angles example_store))
     = example_store"
proof -
  have "length example_store = 2" by (simp add: example_store_def)
  then show ?thesis
    using run_single_station_frame [of example_store example_externals example_db 0 angles]
    by simp
qed





subsection \<open>Lemmas about the orchestrator\<close>







lemma estimate_station_Inr:
  assumes "estimate_station X spp net sta N y res lg = (Inr res1, lg1)"
  shows "\<exists>A ph cov am. curve_fit X (valid_points x_grid y) = Inr (A, ph, cov)
     \<and> angle_max A ph = Inr am
     \<and> res1 = res(full_code net sta \<mapsto> (get_entry res (full_code net sta))\<lparr>azimuth_correction := Some am\<rparr>)
     \<and> lg1 = lg @ [Estimate sta am (np_sqrt cov) N]
     \<and> length y = length x_grid"
  using assms
  by (auto simp: estimate_station_def Let_def split: if_splits sum.splits option.splits prod.splits)


lemma full_code_inj: "full_code net sta = full_code net sta' \<Longrightarrow> sta = sta'"
  by (simp add: full_code_def)

lemma get_entry_upd:
  "get_entry (res(c \<mapsto> e)) k = (if k = c then e else get_entry res k)"
  by (simp add: get_entry_def)

lemma get_entry_present:
  "date_range (get_entry res k) \<noteq> None \<Longrightarrow> \<exists>e. res k = Some e \<and> e = get_entry res k"
  by (cases "res k") (simp_all add: get_entry_def empty_entry_def)

lemma get_entry_empty: "get_entry Map.empty k = empty_entry"
  by (simp add: get_entry_def)

lemma date_ranges_correction:
  "date_ranges net h sts res = Inr res' \<Longrightarrow>
     azimuth_correction (get_entry res' k) = azimuth_correction (get_entry res k)"
proof (induction sts arbitrary: res)
  case Nil
  then show ?case by simp
next
  case (Cons p sts)
  obtain sta db where p: "p = (sta, db)" by (cases p)
  from Cons.prems obtain se where
    rest: "date_ranges net h sts
            (res(full_code net sta \<mapsto> (get_entry res (full_code net sta))\<lparr>date_range := Some se\<rparr>)) = Inr res'"
    by (auto simp: p split: sum.splits)
  have "azimuth_correction (get_entry res' k)
      = azimuth_correction (get_entry
          (res(full_code net sta \<mapsto> (get_entry res (full_code net sta))\<lparr>date_range := Some se\<rparr>)) k)"
    using rest by (rule Cons.IH)
  also have "\<dots> = azimuth_correction (get_entry res k)"
    by (simp add: get_entry_upd)
  finally show ?case .
qed

lemma date_ranges_range:
  "date_ranges net h sts res = Inr res' \<Longrightarrow>
     k \<in> full_code net ` fst ` set sts \<or> date_range (get_entry res k) \<noteq> None \<Longrightarrow>
     date_range (get_entry res' k) \<noteq> None"
proof (induction sts arbitrary: res)
  case Nil
  then show ?case by simp
next
  case (Cons p sts)
  obtain sta db where p: "p = (sta, db)" by (cases p)
  from Cons.prems(1) obtain se where
    rest: "date_ranges net h sts
            (res(full_code net sta \<mapsto> (get_entry res (full_code net sta))\<lparr>date_range := Some se\<rparr>)) = Inr res'"
    by (auto simp: p split: sum.splits)
  have "k \<in> full_code net ` fst ` set sts
      \<or> date_range (get_entry (res(full_code net sta \<mapsto> (get_entry res (full_code net sta))\<lparr>date_range := Some se\<rparr>)) k) \<noteq> None"
    using Cons.prems(2) by (auto simp: p get_entry_upd)
  with rest show ?case by (rule Cons.IH)
qed

lemma estimate_stations_log:
  "estimate_stations X spp net ms res lg = (r, lg') \<Longrightarrow> set lg \<subseteq> set lg'"
proof (induction ms arbitrary: res lg)
  case Nil
  then show ?case by simp
next
  case (Cons m ms)
  obtain sta N ampls where m: "m = (sta, N, ampls)" by (cases m)
  show ?case
  proof (cases "close_curve ampls")
    case (Inl e)
    with Cons.prems show ?thesis by (simp add: m)
  next
    case (Inr y)
    show ?thesis
    proof (cases "n_valid y < 5")
      case True
      with Cons.prems Inr
      have "estimate_stations X spp net ms res (lg @ [InsufficientData sta (n_valid y)]) = (r, lg')"
        by (simp add: m)
      from Cons.IH [OF this] show ?thesis by simp
    next
      case False
      obtain r1 lg1 where es: "estimate_station X spp net sta N y res lg = (r1, lg1)"
        by (cases "estimate_station X spp net sta N y res lg")
      have mono: "set lg \<subseteq> set lg1"
        using es by (auto simp: estimate_station_def Let_def
            split: if_splits sum.splits option.splits prod.splits)
      show ?thesis
      proof (cases r1)
        case (Inl e)
        with Cons.prems Inr False es mono show ?thesis by (simp add: m)
      next
        case (Inr res1)
        with Cons.prems \<open>close_curve ampls = Inr y\<close> False es
        have "estimate_stations X spp net ms res1 lg1 = (r, lg')" by (simp add: m)
        from Cons.IH [OF this] mono show ?thesis by blast
      qed
    qed
  qed
qed

lemma estimate_stations_other:
  "estimate_stations X spp net ms res lg = (Inr res', lg') \<Longrightarrow>
     sta \<notin> fst ` set ms \<Longrightarrow> res' (full_code net sta) = res (full_code net sta)"
proof (induction ms arbitrary: res lg)
  case Nil
  then show ?case by simp
next
  case (Cons m ms)
  obtain sta1 N ampls where m: "m = (sta1, N, ampls)" by (cases m)
  from Cons.prems(2) have ne: "sta \<noteq> sta1" and notin: "sta \<notin> fst ` set ms"
    by (auto simp: m)
  from Cons.prems(1) obtain y where y: "close_curve ampls = Inr y"
    by (auto simp: m split: sum.splits)
  show ?case
  proof (cases "n_valid y < 5")
    case True
    with Cons.prems(1) y
    have "estimate_stations X spp net ms res (lg @ [InsufficientData sta1 (n_valid y)]) = (Inr res', lg')"
      by (simp add: m)
    from Cons.IH [OF this notin] show ?thesis .
  next
    case False
    with Cons.prems(1) y obtain res1 lg1 where
      es: "estimate_station X spp net sta1 N y res lg = (Inr res1, lg1)"
      and rest: "estimate_stations X spp net ms res1 lg1 = (Inr res', lg')"
      by (auto simp: m split: sum.splits prod.splits)
    from estimate_station_Inr [OF es] ne have "res1 (full_code net sta) = res (full_code net sta)"
      by (auto dest: full_code_inj)
    with Cons.IH [OF rest notin] show ?thesis by simp
  qed
qed

lemma estimate_stations_range:
  "estimate_stations X spp net ms res lg = (Inr res', lg') \<Longrightarrow>
     date_range (get_entry res' k) = date_range (get_entry res k)"
proof (induction ms arbitrary: res lg)
  case Nil
  then show ?case by simp
next
  case (Cons m ms)
  obtain sta1 N ampls where m: "m = (sta1, N, ampls)" by (cases m)
  from Cons.prems(1) obtain y where y: "close_curve ampls = Inr y"
    by (auto simp: m split: sum.splits)
  show ?case
  proof (cases "n_valid y < 5")
    case True
    with Cons.prems(1) y
    have "estimate_stations X spp net ms res (lg @ [InsufficientData sta1 (n_valid y)]) = (Inr res', lg')"
      by (simp add: m)
    from Cons.IH [OF this] show ?thesis .
  next
    case False
    with Cons.prems(1) y obtain res1 lg1 where
      es: "estimate_station X spp net sta1 N y res lg = (Inr res1, lg1)"
      and rest: "estimate_stations X spp net ms res1 lg1 = (Inr res', lg')"
      by (auto simp: m split: sum.splits prod.splits)
    from estimate_station_Inr [OF es] have "date_range (get_entry res1 k) = date_range (get_entry res k)"
      by (auto simp: get_entry_upd)
    with Cons.IH [OF rest] show ?thesis by simp
  qed
qed

lemma estimate_stations_entry:
  assumes "estimate_stations X spp net ms res lg = (Inr res', lg')"
    and "distinct (map fst ms)" and "(sta, N, ampls) \<in> set ms" and "close_curve ampls = Inr y"
  shows "(n_valid y < 5 \<longrightarrow>
            res' (full_code net sta) = res (full_code net sta)
            \<and> InsufficientData sta (n_valid y) \<in> set lg')
       \<and> (5 \<le> n_valid y \<longrightarrow>
            (\<exists>res0 lg0 res1 lg1.
               estimate_station X spp net sta N y res0 lg0 = (Inr res1, lg1)
               \<and> res0 (full_code net sta) = res (full_code net sta)
               \<and> res' (full_code net sta) = res1 (full_code net sta)))"
  using assms(1-3)
proof (induction ms arbitrary: res lg)
  case Nil
  then show ?case by simp
next
  case (Cons m ms)
  obtain sta1 N1 ampls1 where m: "m = (sta1, N1, ampls1)" by (cases m)
  from Cons.prems(2) have dist: "distinct (map fst ms)" and fresh: "sta1 \<notin> fst ` set ms"
    by (auto simp: m)
  from Cons.prems(1) obtain y1 where y1: "close_curve ampls1 = Inr y1"
    by (auto simp: m split: sum.splits)
  show ?case
  proof (cases "(sta, N, ampls) = m")
    case here: True
    then have same: "sta1 = sta" "N1 = N" "ampls1 = ampls" by (simp_all add: m)
    with y1 assms(4) have yy: "y1 = y" by simp
    from fresh same have notin: "sta \<notin> fst ` set ms" by simp
    show ?thesis
    proof (cases "n_valid y < 5")
      case True
      with Cons.prems(1) y1 yy same
      have rest: "estimate_stations X spp net ms res (lg @ [InsufficientData sta (n_valid y)]) = (Inr res', lg')"
        by (simp add: m)
      from estimate_stations_other [OF rest notin] estimate_stations_log [OF rest] True
      show ?thesis by auto
    next
      case False
      with Cons.prems(1) y1 yy same obtain res1 lg1 where
        es: "estimate_station X spp net sta N y res lg = (Inr res1, lg1)"
        and rest: "estimate_stations X spp net ms res1 lg1 = (Inr res', lg')"
        by (auto simp: m split: sum.splits prod.splits)
      from estimate_stations_other [OF rest notin] es False show ?thesis by auto
    qed
  next
    case False
    with Cons.prems(3) have mem: "(sta, N, ampls) \<in> set ms" by simp
    then have "sta \<in> fst ` set ms" by force
    with fresh have ne: "sta \<noteq> sta1" by auto
    show ?thesis
    proof (cases "n_valid y1 < 5")
      case True
      with Cons.prems(1) y1
      have rest: "estimate_stations X spp net ms res (lg @ [InsufficientData sta1 (n_valid y1)]) = (Inr res', lg')"
        by (simp add: m)
      from Cons.IH [OF rest dist mem] show ?thesis .
    next
      case False
      with Cons.prems(1) y1 obtain res1 lg1 where
        es: "estimate_station X spp net sta1 N1 y1 res lg = (Inr res1, lg1)"
        and rest: "estimate_stations X spp net ms res1 lg1 = (Inr res', lg')"
        by (auto simp: m split: sum.splits prod.splits)
      from estimate_station_Inr [OF es] ne have "res1 (full_code net sta) = res (full_code net sta)"
        by (auto dest: full_code_inj)
      with Cons.IH [OF rest dist mem] show ?thesis by simp
    qed
  qed
qed

lemma analyze_returns:
  assumes "analyze_station_orientations X spp ned h = (Inr res, ned1, h1, lg)"
    and "ned_len ned \<noteq> 0"
  shows "\<exists>res0 lg0 sta_ampls.
      date_ranges (network ned) h (by_station ned) Map.empty = Inr res0
      \<and> prepare X ned h = (Inr (), ned1, h1, lg0)
      \<and> job_runner (station_jobs X ned1 h1) = Inr sta_ampls
      \<and> estimate_stations X spp (network ned1)
            (sta_ori_metrics (map (\<lambda>(sta, db). (sta, length db)) (by_station ned1)) sta_ampls)
            res0 (lg0 @ [Analysing]) = (Inr res, lg)"
  using assms
  by (auto simp: analyze_station_orientations_def Let_def split: sum.splits prod.splits)

lemma metrics_of_jobs:
  assumes "collect (map (\<lambda>(sta, db). J db) bs) = Inr vs"
  shows "map fst (sta_ori_metrics (map (\<lambda>(sta, db). (sta, length db)) bs) vs) = map fst bs
    \<and> (\<forall>(sta, db) \<in> set bs. \<forall>ampls. J db = Inr ampls \<longrightarrow>
          (sta, length db, ampls) \<in> set (sta_ori_metrics (map (\<lambda>(sta, db). (sta, length db)) bs) vs))"
  using assms
proof (induction bs arbitrary: vs)
  case Nil
  then show ?case by (simp add: sta_ori_metrics_def)
next
  case (Cons b bs)
  obtain s d where b: "b = (s, d)" by (cases b)
  from Cons.prems obtain v vs' where v: "J d = Inr v" and rest: "collect (map (\<lambda>(sta, db). J db) bs) = Inr vs'"
    and vs: "vs = v # vs'"
    by (cases "J d") (auto simp: b split: sum.splits)
  have unfold: "sta_ori_metrics (map (\<lambda>(sta, db). (sta, length db)) (b # bs)) vs
      = (s, length d, v) # sta_ori_metrics (map (\<lambda>(sta, db). (sta, length db)) bs) vs'"
    by (simp add: sta_ori_metrics_def b vs)
  from Cons.IH [OF rest] v show ?case unfolding unfold by (auto simp: b)
qed

lemma station_metrics:
  assumes "job_runner (station_jobs X ned1 h1) = Inr sta_ampls"
  shows "map fst (sta_ori_metrics (map (\<lambda>(sta, db). (sta, length db)) (by_station ned1)) sta_ampls)
           = map fst (by_station ned1)"
    and "(sta, db) \<in> set (by_station ned1) \<Longrightarrow> fst (run_single_station X db angles h1) = Inr ampls \<Longrightarrow>
          (sta, length db, ampls) \<in> set (sta_ori_metrics (map (\<lambda>(sta, db). (sta, length db)) (by_station ned1)) sta_ampls)"
proof -
  from assms have c: "collect (map (\<lambda>(sta, db). fst (run_single_station X db angles h1)) (by_station ned1)) = Inr sta_ampls"
    by (simp add: job_runner_def station_jobs_def)
  note m = metrics_of_jobs [OF c]
  from m show "map fst (sta_ori_metrics (map (\<lambda>(sta, db). (sta, length db)) (by_station ned1)) sta_ampls)
           = map fst (by_station ned1)" by blast
  from m show "(sta, db) \<in> set (by_station ned1) \<Longrightarrow> fst (run_single_station X db angles h1) = Inr ampls \<Longrightarrow>
          (sta, length db, ampls) \<in> set (sta_ori_metrics (map (\<lambda>(sta, db). (sta, length db)) (by_station ned1)) sta_ampls)"
    by blast
qed


lemma trace_span_Min:
  "trace_span (s, e) stream
     = (Min (insert s (set (map starttime stream))), Max (insert e (set (map endtime stream))))"
proof (induction stream arbitrary: s e)
  case Nil
  show ?case by (simp add: trace_span_def)
next
  case (Cons tr stream)
  have "trace_span (s, e) (tr # stream)
      = trace_span (min s (starttime tr), max e (endtime tr)) stream"
    by (simp add: trace_span_def)
  also have "\<dots> = (Min (insert (min s (starttime tr)) (set (map starttime stream))),
                  Max (insert (max e (endtime tr)) (set (map endtime stream))))"
    by (rule Cons.IH)
  also have "Min (insert (min s (starttime tr)) (set (map starttime stream)))
      = Min (insert s (set (map starttime (tr # stream))))"
  proof (cases "set (map starttime stream) = {}")
    case True
    then show ?thesis by simp
  next
    case False
    then show ?thesis by (simp add: min.assoc)
  qed
  also have "Max (insert (max e (endtime tr)) (set (map endtime stream)))
      = Max (insert e (set (map endtime (tr # stream))))"
  proof (cases "set (map endtime stream) = {}")
    case True
    then show ?thesis by simp
  next
    case False
    then show ?thesis by (simp add: max.assoc)
  qed
  finally show ?case .
qed

lemma station_span_started:
  "station_span h db (Some s, Some e)
     = Inr (Some (Min (insert s (set (map starttime (station_traces h db))))),
            Some (Max (insert e (set (map endtime (station_traces h db))))))"
proof (induction db arbitrary: s e)
  case Nil
  show ?case by (simp add: station_traces_def)
next
  case (Cons p db)
  obtain ev r where p: "p = (ev, r)" by (cases p)
  let ?S = "set (map starttime (h ! r))" and ?E = "set (map endtime (h ! r))"
  let ?S' = "set (map starttime (station_traces h db))"
  let ?E' = "set (map endtime (station_traces h db))"
  have "station_span h (p # db) (Some s, Some e)
      = station_span h db (Some (Min (insert s ?S)), Some (Max (insert e ?E)))"
    by (simp add: p first_time_def trace_span_Min)
  also have "\<dots> = Inr (Some (Min (insert (Min (insert s ?S)) ?S')),
                       Some (Max (insert (Max (insert e ?E)) ?E')))"
    by (rule Cons.IH)
  also have "Min (insert (Min (insert s ?S)) ?S') = Min (insert s (?S \<union> ?S'))"
  proof (cases "?S' = {}")
    case True
    then show ?thesis by simp
  next
    case False
    have "Min (insert s (?S \<union> ?S')) = Min (insert s ?S \<union> ?S')" by simp
    also have "\<dots> = min (Min (insert s ?S)) (Min ?S')"
      using False by (intro Min_Un) auto
    also have "\<dots> = Min (insert (Min (insert s ?S)) ?S')"
      using False by simp
    finally show ?thesis by simp
  qed
  also have "Max (insert (Max (insert e ?E)) ?E') = Max (insert e (?E \<union> ?E'))"
  proof (cases "?E' = {}")
    case True
    then show ?thesis by simp
  next
    case False
    have "Max (insert e (?E \<union> ?E')) = Max (insert e ?E \<union> ?E')" by simp
    also have "\<dots> = max (Max (insert e ?E)) (Max ?E')"
      using False by (intro Max_Un) auto
    also have "\<dots> = Max (insert (Max (insert e ?E)) ?E')"
      using False by simp
    finally show ?thesis by simp
  qed
  finally show ?case by (simp add: station_traces_def p)
qed

lemma station_span_observed:
  assumes "station_span h db (None, None) = Inr se"
  shows "se = observed_span h db"
proof (cases db)
  case Nil
  with assms show ?thesis by (simp add: observed_span_def station_traces_def)
next
  case (Cons p rest)
  obtain ev r where p: "p = (ev, r)" by (cases p)
  from assms Cons p obtain tr trs where stream: "h ! r = tr # trs"
    by (cases "h ! r") (simp_all add: first_time_def)
  let ?S = "set (map starttime (h ! r))" and ?E = "set (map endtime (h ! r))"
  let ?S' = "set (map starttime (station_traces h rest))"
  let ?E' = "set (map endtime (station_traces h rest))"
  have first: "Min (insert (starttime tr) ?S) = Min ?S" "Max (insert (endtime tr) ?E) = Max ?E"
    by (simp_all add: stream insert_absorb)
  have "station_span h db (None, None)
      = station_span h rest (Some (Min ?S), Some (Max ?E))"
    using first by (simp add: Cons p stream first_time_def trace_span_Min)
  also have "\<dots> = Inr (Some (Min (insert (Min ?S) ?S')), Some (Max (insert (Max ?E) ?E')))"
    by (rule station_span_started)
  finally have se: "se = (Some (Min (insert (Min ?S) ?S')), Some (Max (insert (Max ?E) ?E')))"
    using assms by simp
  have ne: "?S \<noteq> {}" "?E \<noteq> {}" by (simp_all add: stream)
  have mn: "Min (insert (Min ?S) ?S') = Min (?S \<union> ?S')"
  proof (cases "?S' = {}")
    case True
    then show ?thesis by simp
  next
    case False
    have "Min (?S \<union> ?S') = min (Min ?S) (Min ?S')"
      using ne False by (intro Min_Un) auto
    then show ?thesis using False by simp
  qed
  have mx: "Max (insert (Max ?E) ?E') = Max (?E \<union> ?E')"
  proof (cases "?E' = {}")
    case True
    then show ?thesis by simp
  next
    case False
    have "Max (?E \<union> ?E') = max (Max ?E) (Max ?E')"
      using ne False by (intro Max_Un) auto
    then show ?thesis using False by simp
  qed
  have traces: "station_traces h db = h ! r @ station_traces h rest"
    by (simp add: station_traces_def Cons p)
  then have "station_traces h db \<noteq> []" by (simp add: stream)
  then show ?thesis
    unfolding se mn mx by (simp add: observed_span_def traces)
qed

lemma date_ranges_other:
  "date_ranges net h sts res = Inr res' \<Longrightarrow> sta \<notin> fst ` set sts \<Longrightarrow>
     res' (full_code net sta) = res (full_code net sta)"
proof (induction sts arbitrary: res)
  case Nil
  then show ?case by simp
next
  case (Cons p sts)
  obtain sta1 db1 where p: "p = (sta1, db1)" by (cases p)
  from Cons.prems(2) have ne: "sta \<noteq> sta1" and notin: "sta \<notin> fst ` set sts"
    by (auto simp: p)
  from Cons.prems(1) obtain se where
    rest: "date_ranges net h sts
            (res(full_code net sta1 \<mapsto> (get_entry res (full_code net sta1))\<lparr>date_range := Some se\<rparr>)) = Inr res'"
    by (auto simp: p split: sum.splits)
  have "res' (full_code net sta)
      = (res(full_code net sta1 \<mapsto> (get_entry res (full_code net sta1))\<lparr>date_range := Some se\<rparr>))
          (full_code net sta)"
    using rest notin by (rule Cons.IH)
  also have "\<dots> = res (full_code net sta)"
    using ne by (auto dest: full_code_inj)
  finally show ?case .
qed

lemma date_ranges_span:
  assumes "date_ranges net h sts res = Inr res'"
    and "distinct (map fst sts)" and "(sta, db) \<in> set sts"
  shows "date_range (get_entry res' (full_code net sta)) = Some (observed_span h db)"
  using assms
proof (induction sts arbitrary: res)
  case Nil
  then show ?case by simp
next
  case (Cons p sts)
  obtain sta1 db1 where p: "p = (sta1, db1)" by (cases p)
  from Cons.prems(2) have dist: "distinct (map fst sts)" and fresh: "sta1 \<notin> fst ` set sts"
    by (auto simp: p)
  from Cons.prems(1) obtain se where
    span: "station_span h db1 (None, None) = Inr se"
    and rest: "date_ranges net h sts
            (res(full_code net sta1 \<mapsto> (get_entry res (full_code net sta1))\<lparr>date_range := Some se\<rparr>)) = Inr res'"
    by (auto simp: p split: sum.splits)
  show ?case
  proof (cases "(sta, db) \<in> set sts")
    case True
    with rest dist show ?thesis by (intro Cons.IH)
  next
    case False
    with Cons.prems(3) have same: "sta = sta1" "db = db1" by (simp_all add: p)
    from fresh same have "sta \<notin> fst ` set sts" by simp
    from date_ranges_other [OF rest this]
    have "res' (full_code net sta)
        = Some ((get_entry res (full_code net sta))\<lparr>date_range := Some se\<rparr>)"
      by (simp add: same)
    then have "date_range (get_entry res' (full_code net sta)) = Some se"
      by (simp add: get_entry_def)
    with station_span_observed [OF span] same show ?thesis by simp
  qed
qed
subsection \<open>The small dataset, run\<close>


lemma run_single_station_result:
  assumes "\<forall>(ev, r) \<in> set db. r < length h"
  shows "fst (run_single_station X db cs h) = collect (map (\<lambda>c. sweep_metric X db c h) cs)"
proof -
  have same: "take (length h) h = h" by simp
  have "fst (run_single_station X db cs h) =
          (case collect (map (\<lambda>c. sweep_metric X db c h) cs) of
             Inl e \<Rightarrow> Inl e
           | Inr vs \<Rightarrow> Inr ([] @ vs))"
    unfolding run_single_station_def using assms same by (rule angles_loop_result)
  then show ?thesis by (simp split: sum.splits)
qed

lemma collect_map_Inr: "collect (map (\<lambda>c. Inr (g c)) cs) = Inr (map g cs)"
  by (induction cs) simp_all


lemma silent_sweep: "sweep_metric silent_externals example_db c example_store = Inr NaN"
  by (simp add: sweep_metric_def event_rf_def example_db_def silent_externals_def)


lemma silent_job:
  "fst (run_single_station silent_externals example_db angles example_store) = Inr silent_curve"
  by (simp add: run_single_station_result [OF example_refs] silent_sweep collect_map_Inr
      silent_curve_def)

lemma angles_Cons: "angles = - 180 # map (\<lambda>i. - 180 + 18 * real i) [1..<20]"
  unfolding angles_grid by (simp add: upt_conv_Cons)

lemma length_angles: "length angles = 20"
  unfolding angles_grid by simp

lemma length_x_grid: "length x_grid = 21"
  by (simp add: x_grid_def length_angles)


lemma n_valid_none: "\<forall>v \<in> set y. \<not> isfinite v \<Longrightarrow> n_valid y = 0"
  by (simp add: n_valid_def)

lemma example_closed:
  "close_curve example_curve = Inr (example_curve @ [Finite 190])"
  by (simp add: close_curve_def example_curve_def angles_Cons wrap_back_azimuth_def
      wrap_neg.simps wrap_over.simps)

lemma silent_closed: "close_curve silent_curve = Inr (silent_curve @ [NaN])"
  by (simp add: close_curve_def silent_curve_def angles_Cons)


lemma silent_n_valid: "n_valid (silent_curve @ [NaN]) = 0"
  by (rule n_valid_none) (auto simp: silent_curve_def)

lemma example_len: "ned_len example_ned = 2"
  by (simp add: ned_len_def ned_iter_def example_ned_def example_db_def)

lemma example_net: "network example_ned = ''XX''"
  by (simp add: example_ned_def)

lemma example_date_ranges:
  "date_ranges ''XX'' example_store (by_station example_ned) Map.empty
     = Inr [''XX.STA'' \<mapsto> example_dates]"
  by (simp add: example_ned_def by_station_def example_db_def example_store_def example_trace_def
      first_time_def trace_span_def full_code_def get_entry_def empty_entry_def example_dates_def)

lemma example_evids: "evid_set example_ned = [Suc 0, 2]"
  by (simp add: evid_set_def ned_iter_def example_ned_def example_db_def)

lemma example_streams: "map (\<lambda>(sta, ev, stream). stream) (ned_iter example_ned) = [0, Suc 0]"
  by (simp add: ned_iter_def example_ned_def example_db_def)

lemma example_trim:
  "ned_apply (trim_window example_externals) [0, Suc 0] example_store = (Inr (), example_store)"
  "ned_apply (trim_window silent_externals) [0, Suc 0] example_store = (Inr (), example_store)"
  by (simp_all add: example_store_def example_externals_def silent_externals_def
      trim_window_def example_trace_def)

lemma example_downsample:
  "ned_apply (downsample example_externals) [0, Suc 0] example_store = (Inr (), example_store)"
  "ned_apply (downsample silent_externals) [0, Suc 0] example_store = (Inr (), example_store)"
  by (simp_all add: example_store_def example_externals_def silent_externals_def
      downsample_def example_trace_def)

lemma example_curate:
  "curate_seismograms example_externals example_ned example_store = Inr (example_ned, example_store)"
  "curate_seismograms silent_externals example_ned example_store = Inr (example_ned, example_store)"
  by (simp_all add: example_externals_def silent_externals_def)


lemma silent_prepare:
  "prepare silent_externals example_ned example_store
     = (Inr (), example_ned, example_store, [Trimming, Downsampling, Curating, Discarded 0 2])"
  by (simp add: prepare_def Let_def example_evids example_streams example_trim example_downsample
      example_curate del: ned_apply.simps)

lemma silent_run:
  "analyze_station_orientations silent_externals None example_ned example_store
     = (Inr [''XX.STA'' \<mapsto> example_dates], example_ned, example_store,
        example_log @ [InsufficientData ''STA'' 0])"
proof -
  have jobs: "job_runner (station_jobs silent_externals example_ned example_store) = Inr [silent_curve]"
    by (simp add: job_runner_def station_jobs_def by_station_def example_ned_def silent_job)
  have est: "estimate_stations silent_externals None ''XX'' [(''STA'', 2, silent_curve)]
          [''XX.STA'' \<mapsto> example_dates] example_log
        = (Inr [''XX.STA'' \<mapsto> example_dates], example_log @ [InsufficientData ''STA'' 0])"
    by (simp add: silent_closed silent_n_valid)
  have ms: "sta_ori_metrics (map (\<lambda>(sta, db). (sta, length db)) (by_station example_ned)) [silent_curve]
        = [(''STA'', 2, silent_curve)]"
    by (simp add: sta_ori_metrics_def by_station_def example_ned_def example_db_def)
  have "analyze_station_orientations silent_externals None example_ned example_store
      = (case estimate_stations silent_externals None ''XX'' [(''STA'', 2, silent_curve)]
                [''XX.STA'' \<mapsto> example_dates] example_log of
           (r, lg1) \<Rightarrow> (r, example_ned, example_store, lg1))"
    by (simp add: analyze_station_orientations_def example_len example_net example_date_ranges
        silent_prepare jobs ms example_log_def del: estimate_stations.simps)
  then show ?thesis by (simp only: est prod.case)
qed



subsection \<open>The claims about the orchestrator\<close>


lemma valid_points_snoc:
  "length xs = length ys \<Longrightarrow>
     valid_points (xs @ [b]) (ys @ [Finite v]) = valid_points xs ys @ [(b, v)]"
proof (induction xs ys rule: list_induct2)
  case Nil
  show ?case by simp
next
  case (Cons x xs y ys)
  then show ?case by (cases y) simp_all
qed

lemma x_grid_ends: "x_grid ! 0 = - 180 \<and> last x_grid = x_grid ! 0 + 360"
  by (simp add: x_grid_def angles_Cons)

lemma close_curve_Inr:
  assumes "close_curve ampls = Inr y"
  shows "\<exists>a rest. ampls = a # rest \<and> y = a # rest @ [a]"
  using assms by (cases ampls) (simp_all add: close_curve_def)

text \<open>
  Claim C4. The closing sample of a station's curve is the curve's first sample itself:
  \<open>y\<close> is \<open>ampls\<close> with \<open>ampls[0]\<close> appended, so its last entry equals its first,
  the amplitude at the first grid angle, and the abscissa appended to the grid is
  \<open>angles[0] + 360\<close>. When the first sample is finite, the masked arrays handed to the
  spline and to the fit begin and end with that same amplitude, 360 degrees apart.
\<close>

theorem curve_closure:
  assumes "close_curve ampls = Inr y"
  shows "length y = Suc (length ampls) \<and> take (length ampls) y = ampls
    \<and> last y = y ! 0 \<and> last y = ampls ! 0
    \<and> length x_grid = Suc (length angles) \<and> take (length angles) x_grid = angles
    \<and> last x_grid = angles ! 0 + 360
    \<and> (length y = length x_grid \<and> isfinite (y ! 0) \<longrightarrow>
          valid_points x_grid y \<noteq> []
          \<and> snd (last (valid_points x_grid y)) = snd (hd (valid_points x_grid y))
          \<and> fst (last (valid_points x_grid y)) = fst (hd (valid_points x_grid y)) + 360)"
proof -
  from close_curve_Inr [OF assms] obtain a rest where
    ampls: "ampls = a # rest" and y: "y = a # rest @ [a]" by blast
  have shape: "length y = Suc (length ampls) \<and> take (length ampls) y = ampls
    \<and> last y = y ! 0 \<and> last y = ampls ! 0"
    by (simp add: ampls y)
  have grid: "length x_grid = Suc (length angles) \<and> take (length angles) x_grid = angles
    \<and> last x_grid = angles ! 0 + 360"
    by (simp add: x_grid_def)
  have masked: "valid_points x_grid y \<noteq> []
          \<and> snd (last (valid_points x_grid y)) = snd (hd (valid_points x_grid y))
          \<and> fst (last (valid_points x_grid y)) = fst (hd (valid_points x_grid y)) + 360"
    if len: "length y = length x_grid" and fin: "isfinite (y ! 0)"
  proof -
    from fin y obtain v where a: "a = Finite v" by (cases a) simp_all
    let ?xs = "map (\<lambda>i. - 180 + 18 * real i) [1..<20]"
    have xg: "x_grid = - 180 # ?xs @ [180]"
      by (simp add: x_grid_def angles_Cons)
    from len have lr: "length ?xs = length rest"
      by (simp add: y length_x_grid)
    have "valid_points x_grid y = (- 180, v) # valid_points (?xs @ [180]) (rest @ [Finite v])"
      unfolding xg y a by simp
    also have "\<dots> = (- 180, v) # valid_points ?xs rest @ [(180, v)]"
      using valid_points_snoc [OF lr] by simp
    finally have "valid_points x_grid y = (- 180, v) # valid_points ?xs rest @ [(180, v)]" .
    then show ?thesis by simp
  qed
  from shape grid masked show ?thesis by blast
qed

theorem curve_closure_witness:
  "last (example_curve @ [Finite 190]) = Finite 190
   \<and> example_curve ! 0 = Finite 190
   \<and> length (example_curve @ [Finite 190]) = Suc (length example_curve)"
  using curve_closure [OF example_closed] by simp





text \<open>
  Claim C10. When the run on a non-empty dataset returns, every station of the input
  dataset has an entry under "network.station" with a \<open>date_range\<close>, and the range is
  the station's observed span: the earliest start time and the latest end time over all
  traces of all its events, as they were before trimming (station codes are distinct, as
  the keys of a dictionary are). If the station is later skipped for insufficient valid
  samples (or dropped by curation), this entry has no \<open>azimuth_correction\<close>. For this
  last part the station codes after curation are distinct too, and curation keeps the
  network code.
\<close>

theorem date_range_for_every_station:
  assumes run: "analyze_station_orientations X spp ned h = (Inr res, ned1, h1, lg)"
    and nonempty: "ned_len ned \<noteq> 0"
    and sta: "(sta, db) \<in> set (by_station ned)"
  shows "\<exists>e. res (full_code (network ned) sta) = Some e \<and> date_range e \<noteq> None
     \<and> (distinct (map fst (by_station ned)) \<longrightarrow>
           date_range e = Some (observed_span h db))
     \<and> (\<forall>db1 ampls y.
           network ned1 = network ned \<and> distinct (map fst (by_station ned1))
           \<and> (sta, db1) \<in> set (by_station ned1)
           \<and> fst (run_single_station X db1 angles h1) = Inr ampls
           \<and> close_curve ampls = Inr y \<and> n_valid y < 5 \<longrightarrow>
           azimuth_correction e = None)
     \<and> (network ned1 = network ned \<and> sta \<notin> fst ` set (by_station ned1) \<longrightarrow>
           azimuth_correction e = None)"
proof -
  let ?k = "full_code (network ned) sta"
  from analyze_returns [OF run nonempty] obtain res0 lg0 sta_ampls where
    dr: "date_ranges (network ned) h (by_station ned) Map.empty = Inr res0"
    and jobs: "job_runner (station_jobs X ned1 h1) = Inr sta_ampls"
    and est: "estimate_stations X spp (network ned1)
            (sta_ori_metrics (map (\<lambda>(sta, db). (sta, length db)) (by_station ned1)) sta_ampls)
            res0 (lg0 @ [Analysing]) = (Inr res, lg)"
    by blast
  let ?ms = "sta_ori_metrics (map (\<lambda>(sta, db). (sta, length db)) (by_station ned1)) sta_ampls"
  from sta have "?k \<in> full_code (network ned) ` fst ` set (by_station ned)" by force
  then have "date_range (get_entry res0 ?k) \<noteq> None"
    using date_ranges_range [OF dr] by blast
  then have range: "date_range (get_entry res ?k) \<noteq> None"
    using estimate_stations_range [OF est, of ?k] by simp
  from get_entry_present [OF this] obtain e where e: "res ?k = Some e" "e = get_entry res ?k"
    by blast
  have none0: "azimuth_correction (get_entry res0 ?k) = None"
    using date_ranges_correction [OF dr, of ?k] by (simp add: get_entry_empty empty_entry_def)
  have skipped: "azimuth_correction e = None"
    if net: "network ned1 = network ned" and keys: "distinct (map fst (by_station ned1))"
      and sta1: "(sta, db1) \<in> set (by_station ned1)"
      and curve: "fst (run_single_station X db1 angles h1) = Inr ampls"
      and closed: "close_curve ampls = Inr y" and few: "n_valid y < 5"
    for db1 ampls y
  proof -
    from station_metrics(1) [OF jobs] keys have dist: "distinct (map fst ?ms)" by simp
    from station_metrics(2) [OF jobs sta1 curve] have mem: "(sta, length db1, ampls) \<in> set ?ms" .
    from estimate_stations_entry [OF est dist mem closed] few net
    have "res ?k = res0 ?k" by simp
    then have "get_entry res ?k = get_entry res0 ?k" by (simp add: get_entry_def)
    with none0 e show ?thesis by simp
  qed
  have dropped: "azimuth_correction e = None"
    if net: "network ned1 = network ned" and gone: "sta \<notin> fst ` set (by_station ned1)"
  proof -
    from gone station_metrics(1) [OF jobs] have "sta \<notin> fst ` set ?ms"
      by (metis set_map)
    from estimate_stations_other [OF est this] net have "res ?k = res0 ?k" by simp
    then have "get_entry res ?k = get_entry res0 ?k" by (simp add: get_entry_def)
    with none0 e show ?thesis by simp
  qed
  from e range have r: "date_range e \<noteq> None" by simp
  have a: "\<forall>db1 ampls y.
           network ned1 = network ned \<and> distinct (map fst (by_station ned1))
           \<and> (sta, db1) \<in> set (by_station ned1)
           \<and> fst (run_single_station X db1 angles h1) = Inr ampls
           \<and> close_curve ampls = Inr y \<and> n_valid y < 5 \<longrightarrow>
           azimuth_correction e = None"
    using skipped by blast
  have b: "network ned1 = network ned \<and> sta \<notin> fst ` set (by_station ned1) \<longrightarrow>
           azimuth_correction e = None"
    using dropped by blast
  have span: "distinct (map fst (by_station ned)) \<longrightarrow>
           date_range e = Some (observed_span h db)"
  proof
    assume "distinct (map fst (by_station ned))"
    from date_ranges_span [OF dr this sta]
    have "date_range (get_entry res0 ?k) = Some (observed_span h db)" .
    then have "date_range (get_entry res ?k) = Some (observed_span h db)"
      using estimate_stations_range [OF est, of ?k] by simp
    with e show "date_range e = Some (observed_span h db)" by simp
  qed
  from e(1) r span a b show ?thesis by (intro exI [of _ e] conjI)
qed

theorem date_range_for_every_station_witness:
  "\<exists>e. [''XX.STA'' \<mapsto> example_dates] (full_code ''XX'' ''STA'') = Some e
     \<and> date_range e = Some (Some 100, Some 300) \<and> azimuth_correction e = None"
proof -
  have len: "ned_len example_ned \<noteq> 0" by (simp add: example_len)
  have keys: "distinct (map fst (by_station example_ned))"
    by (simp add: by_station_def example_ned_def)
  have sta: "(''STA'', example_db) \<in> set (by_station example_ned)"
    by (simp add: by_station_def example_ned_def)
  have few: "n_valid (silent_curve @ [NaN]) < 5" by (simp add: silent_n_valid)
  have observed: "observed_span example_store example_db = (Some 100, Some 300)"
    by (simp add: observed_span_def station_traces_def example_db_def example_store_def
        example_trace_def)
  from date_range_for_every_station [OF silent_run len sta] obtain e where
    e: "[''XX.STA'' \<mapsto> example_dates] (full_code (network example_ned) ''STA'') = Some e"
    and span: "distinct (map fst (by_station example_ned)) \<longrightarrow>
           date_range e = Some (observed_span example_store example_db)"
    and skip: "\<forall>db1 ampls y.
           network example_ned = network example_ned \<and> distinct (map fst (by_station example_ned))
           \<and> (''STA'', db1) \<in> set (by_station example_ned)
           \<and> fst (run_single_station silent_externals db1 angles example_store) = Inr ampls
           \<and> close_curve ampls = Inr y \<and> n_valid y < 5 \<longrightarrow>
           azimuth_correction e = None"
    by blast
  from skip keys sta silent_job silent_closed few have "azimuth_correction e = None" by blast
  moreover from span keys observed have "date_range e = Some (Some 100, Some 300)" by simp
  ultimately show ?thesis using e by (auto simp: example_net)
qed

text \<open>
  Claim C9. On a dataset with zero events the function returns the empty mapping at once:
  whatever the collaborators are, nothing is logged, and the dataset and the store are as
  they were, so no stage has run.
\<close>

theorem empty_dataset_returns_empty:
  assumes "ned_len ned = 0"
  shows "analyze_station_orientations X spp ned h = (Inr Map.empty, ned, h, [])"
  using assms by (simp add: analyze_station_orientations_def)

theorem empty_dataset_returns_empty_witness:
  "ned_len \<lparr>network = ''XX'', db_sta = [(''STA'', [])]\<rparr> = 0
   \<and> analyze_station_orientations example_externals None
         \<lparr>network = ''XX'', db_sta = [(''STA'', [])]\<rparr> example_store
       = (Inr Map.empty, \<lparr>network = ''XX'', db_sta = [(''STA'', [])]\<rparr>, example_store, [])"
proof -
  have len: "ned_len \<lparr>network = ''XX'', db_sta = [(''STA'', [])]\<rparr> = 0"
    by (simp add: ned_len_def ned_iter_def)
  from empty_dataset_returns_empty [OF len] len show ?thesis by simp
qed

end
